theory Spec2Isabelle
  imports Main "HOL-Library.Word"
begin

unbundle bit_operations_syntax

section \<open>The TGA image codec of \<^verbatim>\<open>tgaimage.h\<close> and \<^verbatim>\<open>tgaimage.cpp\<close>\<close>

text \<open>
  The codec owns a flat byte buffer \<^verbatim>\<open>data\<close> together with the dimensions
  \<^verbatim>\<open>w\<close>, \<^verbatim>\<open>h\<close> (C++ \<^verbatim>\<open>int\<close>) and \<^verbatim>\<open>bpp\<close> (\<^verbatim>\<open>std::uint8_t\<close>).
  Bytes are \<open>8 word\<close>, the 16-bit header fields are \<open>16 word\<close>. The C++ \<^verbatim>\<open>int\<close>
  values are HOL integers. The source multiplies \<^verbatim>\<open>w*h*bpp\<close> on \<^verbatim>\<open>int\<close> to obtain the
  size of the buffer. In the constructor and in \<^verbatim>\<open>read_tga_file\<close>, where the product sizes
  the allocation, the model takes it as the compiled program does: each multiplication wraps
  to 32 bits (\<open>int32\<close>), and the result converted to \<^verbatim>\<open>size_t\<close> is the number of bytes
  allocated. In \<^verbatim>\<open>write_tga_file\<close>, where a wrapped product would be the number of bytes or
  pixels to fetch from a buffer that does not have them, the model stops with
  \<open>SignedOverflow\<close>. Files are byte lists: an input stream is the list of bytes still to be
  read, an output stream the list of bytes written. The functions are total and executable.
\<close>

type_synonym u8 = "8 word"
type_synonym u16 = "16 word"

subsection \<open>Data model\<close>

text \<open>\<^verbatim>\<open>struct TGAHeader\<close>, packed to 18 bytes.\<close>

record TGAHeader =
  idlength :: u8
  colormaptype :: u8
  datatypecode :: u8
  colormaporigin :: u16
  colormaplength :: u16
  colormapdepth :: u8
  x_origin :: u16
  y_origin :: u16
  width :: u16
  height :: u16
  bitsperpixel :: u8
  imagedescriptor :: u8

text \<open>\<^verbatim>\<open>struct TGAColor\<close>: the array \<^verbatim>\<open>bgra[4]\<close> is a list of four bytes.\<close>

record TGAColor =
  bgra :: "u8 list"
  bytespp :: u8

text \<open>The value of \<^verbatim>\<open>TGAColor{}\<close>: the default member initialisers of the struct.\<close>

definition TGAColor_default :: TGAColor where
  "TGAColor_default = \<lparr>bgra = [0, 0, 0, 0], bytespp = 4\<rparr>"

text \<open>The private members of \<^verbatim>\<open>struct TGAImage\<close>.\<close>

record TGAImage =
  w :: int
  h :: int
  bpp :: u8
  data :: "u8 list"


text \<open>
  The outcomes of a \<^verbatim>\<open>return false\<close> of the source, named after the kind of failure:
  \<open>TruncatedHeader\<close> and \<open>TruncatedPixelData\<close> are the \<^verbatim>\<open>!in.good()\<close> exits,
  \<open>InvalidDimensions\<close> is "bad bpp (or width/height) value", \<open>UnsupportedDataType\<close> is
  "unknown file format" and \<open>OverrunPixelData\<close> is "Too many pixels read".
  \<open>SignedOverflow\<close> and \<open>AllocFailure\<close> are not return values of the source.
  \<open>AllocFailure\<close> is the exception of \<^verbatim>\<open>std::vector\<close> for a size above its
  \<^verbatim>\<open>max_size()\<close>, which is what a negative \<^verbatim>\<open>int\<close> becomes as a \<^verbatim>\<open>size_t\<close>: the
  constructor or \<^verbatim>\<open>read_tga_file\<close> is left by the exception and gives no image.
  \<open>SignedOverflow\<close> is used by \<open>write_tga_file\<close> only, for a product \<^verbatim>\<open>w*h\<close> or
  \<^verbatim>\<open>w*h*bpp\<close> outside the range of \<^verbatim>\<open>int\<close>.
\<close>

datatype error =
    TruncatedHeader
  | InvalidDimensions
  | UnsupportedDataType
  | TruncatedPixelData
  | OverrunPixelData
  | SignedOverflow
  | AllocFailure

text \<open>The range of \<^verbatim>\<open>int\<close>.\<close>

definition int_ok :: "int \<Rightarrow> bool" where
  "int_ok n \<longleftrightarrow> - 2147483648 \<le> n \<and> n \<le> 2147483647"

text \<open>
  The \<^verbatim>\<open>int\<close> that an arithmetic operation on \<^verbatim>\<open>int\<close> leaves when its exact result is
  \<open>n\<close>: the result reduced modulo \<open>2^32\<close> into the range of \<^verbatim>\<open>int\<close>, which is \<open>n\<close> itself
  when \<open>n\<close> is in the range.
\<close>

definition int32 :: "int \<Rightarrow> int" where
  "int32 n = (n + 2147483648) mod 4294967296 - 2147483648"

text \<open>The invariant of the pixel buffer: its length is \<^verbatim>\<open>w*h*bpp\<close>.\<close>

definition buffer_inv :: "TGAImage \<Rightarrow> bool" where
  "buffer_inv img \<longleftrightarrow> int (length (data img)) = w img * h img * uint (bpp img)"

subsection \<open>Pixel access\<close>

text \<open>
  \<^verbatim>\<open>TGAImage::get\<close>. The guard returns \<^verbatim>\<open>{}\<close>, the default colour. Otherwise
  \<^verbatim>\<open>ret = {0,0,0,0,bpp}\<close> and the loop \<^verbatim>\<open>for (int i=bpp; i--; ret.bgra[i] = p[i])\<close>
  copies the bytes of the cell from the last to the first.
\<close>

definition get :: "TGAImage \<Rightarrow> int \<Rightarrow> int \<Rightarrow> TGAColor" where
  "get img x y =
     (if data img = [] \<or> x < 0 \<or> y < 0 \<or> x \<ge> w img \<or> y \<ge> h img then TGAColor_default
      else let p = nat ((x + y * w img) * uint (bpp img)) in
        \<lparr>bgra = fold (\<lambda>i ret. ret[i := data img ! (p + i)]) (rev [0..<unat (bpp img)]) [0, 0, 0, 0],
         bytespp = bpp img\<rparr>)"

text \<open>\<^verbatim>\<open>memcpy(dst + off, src, n)\<close> on byte lists.\<close>

definition memcpy :: "u8 list \<Rightarrow> nat \<Rightarrow> u8 list \<Rightarrow> nat \<Rightarrow> u8 list" where
  "memcpy dst off src n = fold (\<lambda>t d. d[off + t := src ! t]) [0..<n] dst"

text \<open>\<^verbatim>\<open>TGAImage::set\<close>.\<close>

definition set_tga :: "TGAImage \<Rightarrow> int \<Rightarrow> int \<Rightarrow> TGAColor \<Rightarrow> TGAImage" where
  "set_tga img x y c =
     (if data img = [] \<or> x < 0 \<or> y < 0 \<or> x \<ge> w img \<or> y \<ge> h img then img
      else img\<lparr>data := memcpy (data img) (nat ((x + y * w img) * uint (bpp img))) (bgra c)
                           (unat (bpp img))\<rparr>)"

subsection \<open>Flips\<close>

text \<open>\<^verbatim>\<open>std::swap(data[p], data[q])\<close>.\<close>

definition swap_at :: "u8 list \<Rightarrow> nat \<Rightarrow> nat \<Rightarrow> u8 list" where
  "swap_at d p q = d[p := d ! q, q := d ! p]"

text \<open>
  \<^verbatim>\<open>TGAImage::flip_horizontally\<close> and \<^verbatim>\<open>TGAImage::flip_vertically\<close>: the three counted
  loops are folds over the index ranges. The loop variables are never negative, so they are
  naturals; a bound \<^verbatim>\<open>w\<close>, \<^verbatim>\<open>h\<close> or \<^verbatim>\<open>w/2\<close> that is not positive gives an empty range
  in the source and in \<open>[0..<nat _]\<close> alike.
\<close>

definition flip_horizontally :: "TGAImage \<Rightarrow> TGAImage" where
  "flip_horizontally img =
     (let W = nat (w img); H = nat (h img); B = unat (bpp img) in
      img\<lparr>data :=
        fold (\<lambda>i. fold (\<lambda>j. fold (\<lambda>b d.
                swap_at d ((i + j * W) * B + b) ((W - 1 - i + j * W) * B + b))
              [0..<B]) [0..<H]) [0..<W div 2] (data img)\<rparr>)"

definition flip_vertically :: "TGAImage \<Rightarrow> TGAImage" where
  "flip_vertically img =
     (let W = nat (w img); H = nat (h img); B = unat (bpp img) in
      img\<lparr>data :=
        fold (\<lambda>i. fold (\<lambda>j. fold (\<lambda>b d.
                swap_at d ((i + j * W) * B + b) ((i + (H - 1 - j) * W) * B + b))
              [0..<B]) [0..<H div 2]) [0..<W] (data img)\<rparr>)"

subsection \<open>The filling constructor\<close>

text \<open>
  \<^verbatim>\<open>TGAImage(w, h, bpp, c)\<close>: the member \<^verbatim>\<open>bpp\<close> is the parameter narrowed to a byte,
  the buffer \<^verbatim>\<open>data(w*h*bpp)\<close> has as many zero bytes as the product taken on the \<^verbatim>\<open>int\<close>
  parameters gives, and the two loops call \<^verbatim>\<open>set(i, j, c)\<close> row by row. A negative product
  is a size that \<^verbatim>\<open>std::vector\<close> refuses with an exception.
\<close>

definition TGAImage_fill :: "int \<Rightarrow> int \<Rightarrow> int \<Rightarrow> TGAColor \<Rightarrow> error + TGAImage" where
  "TGAImage_fill w0 h0 bpp0 c =
     (let nbytes = int32 (int32 (w0 * h0) * bpp0)
      in if nbytes < 0 then Inl AllocFailure
         else Inr (fold (\<lambda>j. fold (\<lambda>i img. set_tga img (int i) (int j) c) [0..<nat w0]) [0..<nat h0]
                     \<lparr>w = w0, h = h0, bpp = word_of_int bpp0,
                      data = replicate (nat nbytes) 0\<rparr>))"

subsection \<open>The header on disk\<close>

text \<open>
  The source reads and writes the packed struct as 18 raw bytes; the 16-bit fields are laid out
  low byte first (the layout of the little-endian targets the program is built for).
\<close>

definition u16_bytes :: "u16 \<Rightarrow> u8 list" where
  "u16_bytes x = [ucast x, ucast (drop_bit 8 x)]"

definition u16_of_bytes :: "u8 \<Rightarrow> u8 \<Rightarrow> u16" where
  "u16_of_bytes lo hi = ucast lo OR push_bit 8 (ucast hi)"

definition header_bytes :: "TGAHeader \<Rightarrow> u8 list" where
  "header_bytes hdr =
     [idlength hdr, colormaptype hdr, datatypecode hdr] @ u16_bytes (colormaporigin hdr) @
     u16_bytes (colormaplength hdr) @ [colormapdepth hdr] @ u16_bytes (x_origin hdr) @
     u16_bytes (y_origin hdr) @ u16_bytes (width hdr) @ u16_bytes (height hdr) @
     [bitsperpixel hdr, imagedescriptor hdr]"

definition parse_header :: "u8 list \<Rightarrow> TGAHeader" where
  "parse_header bs =
     \<lparr>idlength = bs ! 0, colormaptype = bs ! 1, datatypecode = bs ! 2,
      colormaporigin = u16_of_bytes (bs ! 3) (bs ! 4),
      colormaplength = u16_of_bytes (bs ! 5) (bs ! 6),
      colormapdepth = bs ! 7,
      x_origin = u16_of_bytes (bs ! 8) (bs ! 9),
      y_origin = u16_of_bytes (bs ! 10) (bs ! 11),
      width = u16_of_bytes (bs ! 12) (bs ! 13),
      height = u16_of_bytes (bs ! 14) (bs ! 15),
      bitsperpixel = bs ! 16, imagedescriptor = bs ! 17\<rparr>"

subsection \<open>The RLE encoder\<close>

text \<open>The \<open>i\<close>-th pixel of a buffer with \<open>B\<close> bytes per pixel.\<close>

definition pixel_at :: "u8 list \<Rightarrow> nat \<Rightarrow> nat \<Rightarrow> u8 list" where
  "pixel_at d B i = take B (drop (i * B) d)"

text \<open>
  The comparison loop \<^verbatim>\<open>for (int t=0; succ_eq && t<bpp; t++)\<close> of
  \<^verbatim>\<open>unload_rle_data\<close>: the pixel at byte \<open>curbyte\<close> equals its successor.
\<close>

definition pixels_eq :: "u8 list \<Rightarrow> nat \<Rightarrow> nat \<Rightarrow> bool" where
  "pixels_eq d B curbyte = list_all (\<lambda>t. d ! (curbyte + t) = d ! (curbyte + t + B)) [0..<B]"

text \<open>
  The inner \<^verbatim>\<open>while\<close> loop, with \<^verbatim>\<open>max_chunk_length = 128\<close>. It returns the final
  \<^verbatim>\<open>run_length\<close> and \<^verbatim>\<open>raw\<close>. The counter \<^verbatim>\<open>run_length\<close> is a byte in the source; it
  stays between 1 and 128 (lemma \<open>rle_scan_bounds\<close>), so it never wraps.
\<close>

function rle_scan :: "u8 list \<Rightarrow> nat \<Rightarrow> nat \<Rightarrow> nat \<Rightarrow> nat \<Rightarrow> nat \<Rightarrow> bool \<Rightarrow> nat \<times> bool" where
  "rle_scan d B npixels curpix curbyte run_length raw =
     (if curpix + run_length < npixels \<and> run_length < 128 then
        let succ_eq = pixels_eq d B curbyte;
            curbyte1 = curbyte + B;
            raw1 = (if 1 = run_length then \<not> succ_eq else raw)
        in if raw1 \<and> succ_eq then (run_length - 1, raw1)
           else if \<not> raw1 \<and> \<not> succ_eq then (run_length, raw1)
           else rle_scan d B npixels curpix curbyte1 (run_length + 1) raw1
      else (run_length, raw))"
  by pat_completeness auto
termination
  by (relation "measure (\<lambda>(d, B, npixels, curpix, curbyte, run_length, raw). 128 - run_length)") auto

declare rle_scan.simps [simp del]

lemma rle_scan_bounds:
  "1 \<le> rl \<Longrightarrow> rl \<le> 128 \<Longrightarrow> rle_scan d B n c cb rl raw = (rl', raw') \<Longrightarrow> 1 \<le> rl' \<and> rl' \<le> 128"
proof (induction d B n c cb rl raw rule: rle_scan.induct)
  case (1 d B npixels curpix curbyte run_length raw)
  note unfold = rle_scan.simps [of d B npixels curpix curbyte run_length raw]
  show ?case
  proof (cases "curpix + run_length < npixels \<and> run_length < 128")
    case False
    with "1.prems" show ?thesis by (simp add: unfold)
  next
    case True
    note IH = "1.IH" [OF True refl refl refl]
    from "1.prems" True IH show ?thesis
      by (auto simp add: unfold Let_def split: if_splits)
  qed
qed

text \<open>
  The outer loop of \<^verbatim>\<open>unload_rle_data\<close>. Every iteration performs one \<^verbatim>\<open>out.put\<close> of
  a packet header and one \<^verbatim>\<open>out.write\<close> of its payload; the loop returns these packets in
  the order written.
\<close>

function unload_rle_packets :: "u8 list \<Rightarrow> nat \<Rightarrow> nat \<Rightarrow> nat \<Rightarrow> (u8 \<times> u8 list) list" where
  "unload_rle_packets d B npixels curpix =
     (if curpix < npixels then
        (case rle_scan d B npixels curpix (curpix * B) 1 True of
           (run_length, raw) \<Rightarrow>
             ((if raw then of_nat (run_length - 1) else of_nat (run_length + 127)),
              take (if raw then run_length * B else B) (drop (curpix * B) d))
             # unload_rle_packets d B npixels (curpix + run_length))
      else [])"
  by pat_completeness auto
termination
proof (relation "measure (\<lambda>(d, B, npixels, curpix). npixels - curpix)", goal_cases)
  case 1
  show ?case by simp
next
  case (2 d B npixels curpix run_length raw)
  from rle_scan_bounds [OF _ _ 2(2) [symmetric]] have "1 \<le> run_length" by simp
  with 2(1) show ?case by simp
qed

declare unload_rle_packets.simps [simp del]

text \<open>The bytes \<^verbatim>\<open>unload_rle_data\<close> writes to the stream, with \<^verbatim>\<open>npixels = w*h\<close>.\<close>

definition unload_rle_data :: "TGAImage \<Rightarrow> u8 list" where
  "unload_rle_data img =
     concat (map (\<lambda>(hdr, payload). hdr # payload)
       (unload_rle_packets (data img) (unat (bpp img)) (nat (w img * h img)) 0))"

subsection \<open>The RLE decoder\<close>

text \<open>
  The state of \<^verbatim>\<open>load_rle_data\<close>: the bytes left in the stream, the buffer \<^verbatim>\<open>data\<close>, the
  two counters, and the indices of the stores \<^verbatim>\<open>data[currentbyte++] = ...\<close> that fell
  outside the buffer (\<^verbatim>\<open>operator[]\<close> of \<^verbatim>\<open>std::vector\<close> does not check its index).
\<close>

record rle_state =
  input :: "u8 list"
  buf :: "u8 list"
  currentpixel :: nat
  currentbyte :: nat
  oob :: "nat list"

text \<open>\<^verbatim>\<open>for (int t=0; t<bpp; t++) data[currentbyte++] = colorbuffer.bgra[t]\<close>.\<close>

definition store_byte :: "u8 \<Rightarrow> rle_state \<Rightarrow> rle_state" where
  "store_byte v s =
     s\<lparr>buf := (buf s)[currentbyte s := v],
       oob := (if currentbyte s < length (buf s) then oob s else oob s @ [currentbyte s]),
       currentbyte := currentbyte s + 1\<rparr>"

definition store_pixel :: "u8 list \<Rightarrow> rle_state \<Rightarrow> rle_state" where
  "store_pixel colorbuffer s = fold store_byte colorbuffer s"

text \<open>
  The loop of a raw packet, \<open>n\<close> iterations to go: read one pixel, store it, count it, check
  the count.
\<close>

fun raw_chunk :: "nat \<Rightarrow> nat \<Rightarrow> nat \<Rightarrow> rle_state \<Rightarrow> error \<times> rle_state + rle_state" where
  "raw_chunk B pixelcount 0 s = Inr s"
| "raw_chunk B pixelcount (Suc n) s =
     (if length (input s) < B then Inl (TruncatedPixelData, s)
      else let s1 = store_pixel (take B (input s)) (s\<lparr>input := drop B (input s)\<rparr>);
               s2 = s1\<lparr>currentpixel := currentpixel s1 + 1\<rparr>
           in if currentpixel s2 > pixelcount then Inl (OverrunPixelData, s2)
              else raw_chunk B pixelcount n s2)"

text \<open>The loop of a repeated packet, after its pixel has been read into \<open>colorbuffer\<close>.\<close>

fun rep_chunk :: "u8 list \<Rightarrow> nat \<Rightarrow> nat \<Rightarrow> rle_state \<Rightarrow> error \<times> rle_state + rle_state" where
  "rep_chunk colorbuffer pixelcount 0 s = Inr s"
| "rep_chunk colorbuffer pixelcount (Suc n) s =
     (let s1 = store_pixel colorbuffer s;
          s2 = s1\<lparr>currentpixel := currentpixel s1 + 1\<rparr>
      in if currentpixel s2 > pixelcount then Inl (OverrunPixelData, s2)
         else rep_chunk colorbuffer pixelcount n s2)"

text \<open>One packet: the header byte has been read already.\<close>

definition rle_chunk :: "nat \<Rightarrow> nat \<Rightarrow> u8 \<Rightarrow> rle_state \<Rightarrow> error \<times> rle_state + rle_state" where
  "rle_chunk B pixelcount chunkheader s =
     (if chunkheader < 128 then raw_chunk B pixelcount (unat (chunkheader + 1)) s
      else if length (input s) < B then Inl (TruncatedPixelData, s)
      else rep_chunk (take B (input s)) pixelcount (unat (chunkheader - 127))
             (s\<lparr>input := drop B (input s)\<rparr>))"

lemma store_pixel_input: "input (store_pixel px s) = input s"
  unfolding store_pixel_def by (induction px arbitrary: s) (simp_all add: store_byte_def)

lemma raw_chunk_input_le:
  "raw_chunk B pc n s = Inr s' \<Longrightarrow> length (input s') \<le> length (input s)"
proof (induction n arbitrary: s)
  case 0
  then show ?case by simp
next
  case (Suc n)
  from Suc.prems have "length (input s') \<le>
      length (input ((store_pixel (take B (input s)) (s\<lparr>input := drop B (input s)\<rparr>))
                \<lparr>currentpixel := currentpixel (store_pixel (take B (input s)) (s\<lparr>input := drop B (input s)\<rparr>)) + 1\<rparr>))"
    by (intro Suc.IH) (simp add: Let_def split: if_splits)
  then show ?case by (simp add: store_pixel_input)
qed

lemma rep_chunk_input: "rep_chunk px pc n s = Inr s' \<Longrightarrow> input s' = input s"
proof (induction n arbitrary: s)
  case 0
  then show ?case by simp
next
  case (Suc n)
  from Suc.prems have "input s' =
      input ((store_pixel px s)\<lparr>currentpixel := currentpixel (store_pixel px s) + 1\<rparr>)"
    by (intro Suc.IH) (simp add: Let_def split: if_splits)
  then show ?case by (simp add: store_pixel_input)
qed

lemma rle_chunk_input_le:
  "rle_chunk B pc hdr s = Inr s' \<Longrightarrow> length (input s') \<le> length (input s)"
  by (auto simp: rle_chunk_def split: if_splits dest: raw_chunk_input_le rep_chunk_input)

text \<open>
  The \<^verbatim>\<open>do ... while (currentpixel < pixelcount)\<close> loop: \<^verbatim>\<open>in.get()\<close> fails on an empty
  stream, otherwise the packet is decoded and the loop condition is tested.
\<close>

function load_rle_loop :: "nat \<Rightarrow> nat \<Rightarrow> rle_state \<Rightarrow> error \<times> rle_state + rle_state" where
  "load_rle_loop B pixelcount s =
     (case input s of
        [] \<Rightarrow> Inl (TruncatedPixelData, s)
      | chunkheader # rest \<Rightarrow>
          (case rle_chunk B pixelcount chunkheader (s\<lparr>input := rest\<rparr>) of
             Inl e \<Rightarrow> Inl e
           | Inr s' \<Rightarrow> if currentpixel s' < pixelcount then load_rle_loop B pixelcount s'
                       else Inr s'))"
  by pat_completeness auto
termination
proof (relation "measure (\<lambda>(B, pixelcount, s). length (input s))", goal_cases)
  case 1
  show ?case by simp
next
  case (2 B pixelcount s chunkheader rest s')
  from rle_chunk_input_le [OF 2(2)] 2(1) show ?case by simp
qed

declare load_rle_loop.simps [simp del]

text \<open>\<^verbatim>\<open>load_rle_data\<close>: \<^verbatim>\<open>pixelcount = w*h\<close>, both counters start at 0.\<close>

definition load_rle_data :: "TGAImage \<Rightarrow> u8 list \<Rightarrow> error \<times> rle_state + rle_state" where
  "load_rle_data img ins =
     load_rle_loop (unat (bpp img)) (nat (w img * h img))
       \<lparr>input = ins, buf = data img, currentpixel = 0, currentbyte = 0, oob = []\<rparr>"

text \<open>
  The outcome \<open>r\<close> of the decoder when \<open>x\<close> further bytes follow in the stream and are left
  unread (used to compare the decoding of a stream with the decoding of a prefix of it).
\<close>

definition more_input :: "u8 list \<Rightarrow> error \<times> rle_state + rle_state \<Rightarrow> error \<times> rle_state + rle_state" where
  "more_input x r =
     (case r of
        Inl (e, s) \<Rightarrow> Inl (e, s\<lparr>input := input s @ x\<rparr>)
      | Inr s \<Rightarrow> Inr (s\<lparr>input := input s @ x\<rparr>))"

subsection \<open>Reading a file\<close>

text \<open>
  \<^verbatim>\<open>TGAImage::read_tga_file\<close> on the contents of the file (a file that exists: the failure
  to open it is left out). A read of \<open>n\<close> bytes fails when fewer than \<open>n\<close> are left. The
  product of \<^verbatim>\<open>size_t nbytes = w*h*bpp\<close> is taken on \<^verbatim>\<open>int\<close>, with no test of its range:
  \<^verbatim>\<open>nbytes\<close> is the wrapped product, and a negative one is a size that \<^verbatim>\<open>std::vector\<close>
  refuses with an exception. The function is written in three parts: \<open>read_pixel_data\<close> is
  the dispatch on \<^verbatim>\<open>header.datatypecode\<close> that fills the freshly allocated buffer of
  \<^verbatim>\<open>nbytes\<close> zero bytes, \<open>normalize_origin\<close> the two flips that follow it, and
  \<open>read_tga_file\<close> the whole.
\<close>

definition read_pixel_data :: "TGAHeader \<Rightarrow> TGAImage \<Rightarrow> u8 list \<Rightarrow> error + TGAImage" where
  "read_pixel_data header img ins =
     (let nbytes = length (data img) in
      if 3 = datatypecode header \<or> 2 = datatypecode header then
        (if length ins < nbytes then Inl TruncatedPixelData
         else Inr (img\<lparr>data := take nbytes ins\<rparr>))
      else if 10 = datatypecode header \<or> 11 = datatypecode header then
        (case load_rle_data img ins of
           Inl (e, s) \<Rightarrow> Inl e
         | Inr s \<Rightarrow> Inr (img\<lparr>data := buf s\<rparr>))
      else Inl UnsupportedDataType)"

definition normalize_origin :: "TGAHeader \<Rightarrow> TGAImage \<Rightarrow> TGAImage" where
  "normalize_origin header img =
     (let img2 = (if imagedescriptor header AND 0x20 = 0 then flip_vertically img else img)
      in if imagedescriptor header AND 0x10 \<noteq> 0 then flip_horizontally img2 else img2)"

definition read_tga_file :: "u8 list \<Rightarrow> error + TGAImage" where
  "read_tga_file file =
     (if length file < 18 then Inl TruncatedHeader
      else
        let header = parse_header (take 18 file);
            ins = drop 18 file;
            w1 = uint (width header);
            h1 = uint (height header);
            bpp1 = drop_bit 3 (bitsperpixel header)
        in if w1 \<le> 0 \<or> h1 \<le> 0 \<or> (bpp1 \<noteq> 1 \<and> bpp1 \<noteq> 3 \<and> bpp1 \<noteq> 4) then Inl InvalidDimensions
           else
             let nbytes = int32 (int32 (w1 * h1) * uint bpp1)
             in if nbytes < 0 then Inl AllocFailure
                else
                  (case read_pixel_data header
                          \<lparr>w = w1, h = h1, bpp = bpp1, data = replicate (nat nbytes) 0\<rparr>
                          ins
                   of Inl e \<Rightarrow> Inl e
                    | Inr img \<Rightarrow> Inr (normalize_origin header img)))"

subsection \<open>Writing a file\<close>

definition developer_area_ref :: "u8 list" where
  "developer_area_ref = [0, 0, 0, 0]"

definition extension_area_ref :: "u8 list" where
  "extension_area_ref = [0, 0, 0, 0]"

text \<open>The bytes of \<^verbatim>\<open>TRUEVISION-XFILE.\<close> and the final NUL.\<close>

definition footer :: "u8 list" where
  "footer = [84, 82, 85, 69, 86, 73, 83, 73, 79, 78, 45, 88, 70, 73, 76, 69, 46, 0]"

text \<open>
  \<^verbatim>\<open>TGAImage::write_tga_file\<close>: the bytes of the file it produces when every stream
  operation succeeds (the \<^verbatim>\<open>goto err\<close> exits depend on the file system only). The header
  starts from \<^verbatim>\<open>TGAHeader header = {}\<close>; \<^verbatim>\<open>header.width = w\<close> narrows an \<^verbatim>\<open>int\<close> to
  16 bits and \<^verbatim>\<open>bpp << 3\<close> is narrowed to a byte. The raw branch computes \<^verbatim>\<open>w*h*bpp\<close>, the
  RLE branch \<^verbatim>\<open>w*h\<close>, as the number of bytes or pixels to fetch from the buffer; the model
  covers the calls where these products are in the range of \<^verbatim>\<open>int\<close> and gives
  \<open>SignedOverflow\<close> for the others.
\<close>

definition write_tga_file :: "TGAImage \<Rightarrow> bool \<Rightarrow> bool \<Rightarrow> error + u8 list" where
  "write_tga_file img vflip rle =
     (let header =
            \<lparr>idlength = 0, colormaptype = 0,
             datatypecode = (if bpp img = 1 then (if rle then 11 else 3) else (if rle then 10 else 2)),
             colormaporigin = 0, colormaplength = 0, colormapdepth = 0,
             x_origin = 0, y_origin = 0,
             width = word_of_int (w img), height = word_of_int (h img),
             bitsperpixel = push_bit 3 (bpp img),
             imagedescriptor = (if vflip then 0x00 else 0x20)\<rparr>
      in if \<not> int_ok (w img * h img) \<or> (\<not> rle \<and> \<not> int_ok (w img * h img * uint (bpp img)))
         then Inl SignedOverflow
         else Inr (header_bytes header @
                   (if \<not> rle then take (nat (w img * h img * uint (bpp img))) (data img)
                    else unload_rle_data img) @
                   developer_area_ref @ extension_area_ref @ footer))"

text \<open>
  A valid image state: positive dimensions, one of the three pixel formats
  (\<^verbatim>\<open>GRAYSCALE = 1\<close>, \<^verbatim>\<open>RGB = 3\<close>, \<^verbatim>\<open>RGBA = 4\<close>) and a buffer of \<^verbatim>\<open>w*h*bpp\<close> bytes.
\<close>

definition valid_image :: "TGAImage \<Rightarrow> bool" where
  "valid_image img \<longleftrightarrow>
     0 < w img \<and> 0 < h img \<and> (bpp img = 1 \<or> bpp img = 3 \<or> bpp img = 4) \<and> buffer_inv img"

section \<open>Pixel access: \<^verbatim>\<open>get\<close> and \<^verbatim>\<open>set\<close>\<close>

lemma memcpy_length [simp]: "length (memcpy dst off src n) = length dst"
  unfolding memcpy_def by (induction n) simp_all




text \<open>
  Claim C6, as the code has it. For every image state and every coordinate pair that is out of
  range (\<open>x < 0\<close>, \<open>y < 0\<close>, \<open>x \<ge> w\<close> or \<open>y \<ge> h\<close>), or when the buffer is empty,
  \<^verbatim>\<open>get\<close> returns the default colour \<^verbatim>\<open>TGAColor{}\<close>: the four channel bytes are 0 and the
  bytes-per-pixel tag is 4, whatever the \<^verbatim>\<open>bpp\<close> of the image. \<^verbatim>\<open>get\<close> has no failure exit:
  it is a total function to colours.
\<close>

theorem get_out_of_range:
  "data img = [] \<or> x < 0 \<or> y < 0 \<or> x \<ge> w img \<or> y \<ge> h img \<Longrightarrow>
   get img x y = \<lparr>bgra = [0, 0, 0, 0], bytespp = 4\<rparr>"
  by (simp add: get_def TGAColor_default_def)

theorem get_out_of_range_witness:
  "(- 1 :: int) < 0 \<and>
   get \<lparr>w = 1, h = 1, bpp = 3, data = [1, 2, 3]\<rparr> (- 1) 0 = \<lparr>bgra = [0, 0, 0, 0], bytespp = 4\<rparr>"
  using get_out_of_range [of "\<lparr>w = 1, h = 1, bpp = 3, data = [1, 2, 3]\<rparr>" "- 1" 0] by simp

text \<open>
  Claim C6 as stated asks for a tag equal to the \<^verbatim>\<open>bpp\<close> of the image. On a 1x1 RGB image
  (\<^verbatim>\<open>bpp = 3\<close>) the call \<^verbatim>\<open>get(-1, 0)\<close> returns the tag 4.
\<close>

theorem get_tag_counterexample:
  "bytespp (get \<lparr>w = 1, h = 1, bpp = 3, data = [1, 2, 3]\<rparr> (- 1) 0)
     \<noteq> bpp \<lparr>w = 1, h = 1, bpp = 3, data = [1, 2, 3]\<rparr>"
  by (simp add: get_def TGAColor_default_def)




section \<open>The packets of the RLE encoder\<close>

lemma pixels_eq_iff:
  assumes "cb + 2 * B \<le> length d"
  shows "pixels_eq d B cb \<longleftrightarrow> take B (drop cb d) = take B (drop (cb + B) d)"
proof -
  from assms have l1: "length (take B (drop cb d)) = B" and l2: "length (take B (drop (cb + B) d)) = B"
    by simp_all
  have "take B (drop cb d) = take B (drop (cb + B) d) \<longleftrightarrow>
        (\<forall>t<B. take B (drop cb d) ! t = take B (drop (cb + B) d) ! t)"
    using l1 l2 by (auto simp only: list_eq_iff_nth_eq)
  also have "\<dots> \<longleftrightarrow> (\<forall>t<B. d ! (cb + t) = d ! (cb + t + B))"
    using assms by (simp add: add.commute add.left_commute)
  finally show ?thesis by (auto simp add: pixels_eq_def list_all_iff)
qed

lemma pixels_eq_pixel_at:
  assumes "(i + 2) * B \<le> length d"
  shows "pixels_eq d B (i * B) \<longleftrightarrow> pixel_at d B i = pixel_at d B (Suc i)"
proof -
  from assms have "i * B + 2 * B \<le> length d" by (simp add: algebra_simps)
  from pixels_eq_iff [OF this] show ?thesis by (simp add: pixel_at_def add.commute)
qed

lemma rle_scan_result:
  assumes "rle_scan d B n c cb rl raw = (rl', raw')"
    and "1 \<le> rl" "rl \<le> 128" "c + rl \<le> n" "cb = (c + rl - 1) * B" "n * B \<le> length d"
    and "\<not> raw \<longrightarrow> 2 \<le> rl \<and> (\<forall>k<rl. pixel_at d B (c + k) = pixel_at d B c)"
  shows "1 \<le> rl' \<and> rl' \<le> 128 \<and> c + rl' \<le> n \<and>
         (\<not> raw' \<longrightarrow> 2 \<le> rl' \<and> (\<forall>k<rl'. pixel_at d B (c + k) = pixel_at d B c))"
  using assms
proof (induction d B n c cb rl raw rule: rle_scan.induct)
  case (1 d B npixels curpix curbyte run_length raw)
  note unfold = rle_scan.simps [of d B npixels curpix curbyte run_length raw]
  show ?case
  proof (cases "curpix + run_length < npixels \<and> run_length < 128")
    case False
    with "1.prems"(1) have "rl' = run_length" "raw' = raw" by (simp_all add: unfold)
    with "1.prems" show ?thesis by simp
  next
    case True
    define succ_eq where "succ_eq = pixels_eq d B curbyte"
    define raw1 where "raw1 = (if 1 = run_length then \<not> succ_eq else raw)"
    note IH = "1.IH" [OF True succ_eq_def refl raw1_def]
    have "rle_scan d B npixels curpix curbyte run_length raw =
        (if raw1 \<and> succ_eq then (run_length - 1, raw1)
         else if \<not> raw1 \<and> \<not> succ_eq then (run_length, raw1)
         else rle_scan d B npixels curpix (curbyte + B) (run_length + 1) raw1)"
      unfolding succ_eq_def raw1_def using True by (subst unfold) (auto simp add: Let_def)
    with "1.prems"(1) have res:
      "(if raw1 \<and> succ_eq then (run_length - 1, raw1)
        else if \<not> raw1 \<and> \<not> succ_eq then (run_length, raw1)
        else rle_scan d B npixels curpix (curbyte + B) (run_length + 1) raw1) = (rl', raw')"
      by simp
    from True "1.prems"(2) have "curpix + run_length - 1 + 2 \<le> npixels" by simp
    then have "(curpix + run_length - 1 + 2) * B \<le> npixels * B" by (rule mult_le_mono1)
    with "1.prems"(6) have "(curpix + run_length - 1 + 2) * B \<le> length d" by simp
    from pixels_eq_pixel_at [OF this] "1.prems"(2,5)
    have succ: "succ_eq \<longleftrightarrow> pixel_at d B (curpix + run_length - 1) = pixel_at d B (curpix + run_length)"
      by (simp add: succ_eq_def)
    consider (a) "raw1 \<and> succ_eq" | (b) "\<not> raw1 \<and> \<not> succ_eq" | (c) "\<not> (raw1 \<and> succ_eq)" "\<not> (\<not> raw1 \<and> \<not> succ_eq)"
      by blast
    then show ?thesis
    proof cases
      case a
      then have "run_length \<noteq> 1" by (auto simp: raw1_def)
      moreover from a res have "rl' = run_length - 1" "raw'" by simp_all
      ultimately show ?thesis using "1.prems"(2,3,4) by auto
    next
      case b
      then have "run_length \<noteq> 1" by (auto simp: raw1_def)
      with b have "\<not> raw" by (simp add: raw1_def)
      moreover from b res have "rl' = run_length" by simp
      ultimately show ?thesis using "1.prems"(2,3,4,7) by simp
    next
      case c
      with res have r: "rle_scan d B npixels curpix (curbyte + B) (run_length + 1) raw1 = (rl', raw')"
        by (simp split: if_splits)
      have inv: "\<not> raw1 \<longrightarrow> 2 \<le> run_length + 1 \<and>
          (\<forall>k<run_length + 1. pixel_at d B (curpix + k) = pixel_at d B curpix)"
      proof (intro impI conjI allI)
        assume nr: "\<not> raw1"
        from "1.prems"(2) show "2 \<le> run_length + 1" by simp
        fix k assume k: "k < run_length + 1"
        from nr c have s: succ_eq by blast
        show "pixel_at d B (curpix + k) = pixel_at d B curpix"
        proof (cases "run_length = 1")
          case True
          with k s succ show ?thesis by (cases k) auto
        next
          case False
          with nr have "\<not> raw" by (simp add: raw1_def)
          with "1.prems"(7) have all: "\<forall>k<run_length. pixel_at d B (curpix + k) = pixel_at d B curpix"
            by simp
          show ?thesis
          proof (cases "k < run_length")
            case True
            with all show ?thesis by simp
          next
            case False
            with k have keq: "k = run_length" by simp
            from "1.prems"(2) have "run_length - 1 < run_length" by simp
            with all have "pixel_at d B (curpix + (run_length - 1)) = pixel_at d B curpix"
              by blast
            moreover from "1.prems"(2) have "curpix + (run_length - 1) = curpix + run_length - 1"
              by simp
            ultimately show ?thesis using s succ keq by simp
          qed
        qed
      qed
      from "1.prems"(2) obtain m where "run_length = Suc m" by (cases run_length) auto
      with "1.prems"(5) have cb: "curbyte + B = (curpix + (run_length + 1) - 1) * B"
        by simp
      from True have b1: "1 \<le> run_length + 1" "run_length + 1 \<le> 128" "curpix + (run_length + 1) \<le> npixels"
        by simp_all
      from IH [OF c r b1 cb "1.prems"(6) inv] show ?thesis .
    qed
  qed
qed


lemma rle_scan_start:
  assumes "rle_scan d B n c (c * B) 1 True = (rl, raw)" and "c < n" and "n * B \<le> length d"
  shows "1 \<le> rl \<and> rl \<le> 128 \<and> c + rl \<le> n \<and>
         (\<not> raw \<longrightarrow> 2 \<le> rl \<and> (\<forall>k<rl. pixel_at d B (c + k) = pixel_at d B c))"
  using rle_scan_result [OF assms(1), of ] assms(2,3) by simp

lemma raw_header:
  assumes "1 \<le> rl" "rl \<le> 128"
  shows "(of_nat (rl - 1) :: u8) < 128" and "unat (of_nat (rl - 1) :: u8) = rl - 1"
proof -
  from assms have "rl - 1 < 2 ^ LENGTH(8)" by simp
  then show u: "unat (of_nat (rl - 1) :: u8) = rl - 1" by (rule of_nat_inverse [OF refl])
  with assms show "(of_nat (rl - 1) :: u8) < 128" by (simp add: word_less_nat_alt)
qed

lemma rep_header:
  assumes "2 \<le> rl" "rl \<le> 128"
  shows "(129 :: u8) \<le> of_nat (rl + 127)" and "unat (of_nat (rl + 127) :: u8) = rl + 127"
proof -
  from assms have "rl + 127 < 2 ^ LENGTH(8)" by simp
  then show u: "unat (of_nat (rl + 127) :: u8) = rl + 127" by (rule of_nat_inverse [OF refl])
  with assms show "(129 :: u8) \<le> of_nat (rl + 127)" by (simp add: word_le_nat_alt)
qed

lemma payload_length:
  assumes "c + k \<le> n" "n * B \<le> length d"
  shows "length (take (k * B) (drop (c * B) d)) = k * B"
proof -
  from assms(1) have "(c + k) * B \<le> n * B" by (rule mult_le_mono1)
  with assms(2) have "c * B + k * B \<le> length d" by (simp add: algebra_simps)
  then show ?thesis by simp
qed

lemma unload_rle_packets_shapes:
  assumes "n * B \<le> length d"
  shows "\<forall>(hdr, payload) \<in> set (unload_rle_packets d B n c).
           (hdr < 128 \<and> length payload = (unat hdr + 1) * B) \<or> (129 \<le> hdr \<and> length payload = B)"
  using assms
proof (induction d B n c rule: unload_rle_packets.induct)
  case (1 d B npixels curpix)
  note unfold = unload_rle_packets.simps [of d B npixels curpix]
  show ?case
  proof (cases "curpix < npixels")
    case False
    then show ?thesis by (simp add: unfold)
  next
    case True
    obtain rl raw where scan: "rle_scan d B npixels curpix (curpix * B) 1 True = (rl, raw)"
      by (cases "rle_scan d B npixels curpix (curpix * B) 1 True")
    from rle_scan_start [OF scan True "1.prems"]
    have b: "1 \<le> rl" "rl \<le> 128" "curpix + rl \<le> npixels" "\<not> raw \<longrightarrow> 2 \<le> rl" by simp_all
    from "1.IH" [OF True scan [symmetric] "1.prems"]
    have rest: "\<forall>(hdr, payload) \<in> set (unload_rle_packets d B npixels (curpix + rl)).
           (hdr < 128 \<and> length payload = (unat hdr + 1) * B) \<or> (129 \<le> hdr \<and> length payload = B)" .
    have first: "(if raw then of_nat (rl - 1) else (of_nat (rl + 127) :: u8)) < 128 \<and>
          length (take (if raw then rl * B else B) (drop (curpix * B) d)) =
          (unat (if raw then of_nat (rl - 1) else (of_nat (rl + 127) :: u8)) + 1) * B
        \<or> 129 \<le> (if raw then of_nat (rl - 1) else (of_nat (rl + 127) :: u8)) \<and>
          length (take (if raw then rl * B else B) (drop (curpix * B) d)) = B"
    proof (cases raw)
      case True
      with raw_header [OF b(1,2)] payload_length [OF b(3) "1.prems"] b(1) show ?thesis by simp
    next
      case False
      from b(1,3) have "curpix + 1 \<le> npixels" by simp
      from payload_length [OF this "1.prems"] False rep_header [OF _ b(2)] b(4)
      show ?thesis by simp
    qed
    from True scan first rest show ?thesis by (simp add: unfold)
  qed
qed

text \<open>
  Claim C10. On a buffer that holds the \<open>n\<close> pixels the encoder is asked to write, every
  packet it emits is either a raw packet, whose header byte is below 128 and whose payload has
  \<open>header + 1\<close> pixels (between 1 and 128), or a repeated packet, whose header byte is at least
  129 (so it replicates \<open>header - 127 \<ge> 2\<close> pixels, and the header is never 128) and whose
  payload is one pixel. The scan that starts a packet ends with a run length between 1 and 128,
  and a run of length 1 is raw.
\<close>

theorem rle_packet_ranges:
  assumes "n * B \<le> length d"
  shows "(\<forall>(hdr, payload) \<in> set (unload_rle_packets d B n c).
            (hdr < 128 \<and> length payload = (unat hdr + 1) * B) \<or> (129 \<le> hdr \<and> length payload = B))
       \<and> (\<forall>rl raw. c < n \<and> rle_scan d B n c (c * B) 1 True = (rl, raw) \<longrightarrow>
            1 \<le> rl \<and> rl \<le> 128 \<and> (rl = 1 \<longrightarrow> raw))"
proof (intro conjI allI impI)
  show "\<forall>(hdr, payload) \<in> set (unload_rle_packets d B n c).
            (hdr < 128 \<and> length payload = (unat hdr + 1) * B) \<or> (129 \<le> hdr \<and> length payload = B)"
    using assms by (rule unload_rle_packets_shapes)
next
  fix rl raw
  assume a: "c < n \<and> rle_scan d B n c (c * B) 1 True = (rl, raw)"
  then have "rle_scan d B n c (c * B) 1 True = (rl, raw)" and "c < n" by simp_all
  from rle_scan_start [OF this assms] show "1 \<le> rl" "rl \<le> 128" "rl = 1 \<Longrightarrow> raw" by auto
qed

theorem rle_packet_ranges_witness:
  "(9 :: nat) * 1 \<le> length [1, 1, 1, 2, 3, 4, 4, 5, 5 :: u8] \<and>
   unload_rle_packets [1, 1, 1, 2, 3, 4, 4, 5, 5] 1 9 0 = [(130, [1]), (1, [2, 3]), (129, [4]), (129, [5])] \<and>
   list_all (\<lambda>(hdr, payload).
      (hdr < 128 \<and> length payload = (unat hdr + 1) * 1) \<or> (129 \<le> hdr \<and> length payload = 1))
     (unload_rle_packets [1, 1, 1, 2, 3, 4, 4, 5, 5] 1 9 0) \<and>
   (0 :: nat) < 9 \<and> rle_scan [1, 1, 1, 2, 3, 4, 4, 5, 5] 1 9 0 (0 * 1) 1 True = (3, False)"
proof -
  have len: "(9 :: nat) * 1 \<le> length [1, 1, 1, 2, 3, 4, 4, 5, 5 :: u8]" by simp
  have ev: "unload_rle_packets [1, 1, 1, 2, 3, 4, 4, 5, 5] 1 9 0
      = [(130, [1]), (1, [2, 3]), (129, [4]), (129, [5])]"
    by code_simp
  have sc: "rle_scan [1, 1, 1, 2, 3, 4, 4, 5, 5] 1 9 0 (0 * 1) 1 True = (3, False)"
    by code_simp
  from rle_packet_ranges [OF len, of 0]
  have pk: "\<forall>(hdr, payload) \<in> set (unload_rle_packets [1, 1, 1, 2, 3, 4, 4, 5, 5] 1 9 0).
      (hdr < 128 \<and> length payload = (unat hdr + 1) * 1) \<or> (129 \<le> hdr \<and> length payload = 1)"
    by (rule conjunct1)
  then have la: "list_all (\<lambda>(hdr, payload).
      (hdr < 128 \<and> length payload = (unat hdr + 1) * 1) \<or> (129 \<le> hdr \<and> length payload = 1))
     (unload_rle_packets [1, 1, 1, 2, 3, 4, 4, 5, 5] 1 9 0)"
    by (simp only: list_all_iff)
  show ?thesis by (intro conjI len ev la sc) simp
qed

section \<open>The RLE decoder on corrupt streams\<close>

text \<open>
  Claim C3 at a concrete file: a 1x1 grayscale image (type 10, 8 bits per pixel) whose RLE
  stream is one raw packet of two pixels, \<open>[1, 170, 187]\<close>. The decoder stores the first pixel
  at index 0, stores the second pixel at index 1 of a one-byte buffer, and only then finds
  \<open>currentpixel > pixelcount\<close>: the read fails with the overrun error after a store past the end
  of the buffer.
\<close>

theorem load_rle_data_overrun_store:
  "read_tga_file [0, 0, 10, 0, 0, 0, 0, 0, 0, 0, 0, 0, 1, 0, 1, 0, 8, 0, 1, 170, 187]
     = Inl OverrunPixelData \<and>
   load_rle_data \<lparr>w = 1, h = 1, bpp = 1, data = [0]\<rparr> [1, 170, 187]
     = Inl (OverrunPixelData,
            \<lparr>input = [], buf = [170], currentpixel = 2, currentbyte = 2, oob = [1]\<rparr>)"
  by code_simp

theorem load_rle_data_overrun_store_witness:
  "length (data \<lparr>w = 1, h = 1, bpp = 1, data = [0]\<rparr>) = 1 \<and>
   oob (snd (projl (load_rle_data \<lparr>w = 1, h = 1, bpp = 1, data = [0]\<rparr> [1, 170, 187]))) = [1]"
  using load_rle_data_overrun_store by simp

section \<open>The buffer invariant\<close>

lemma length_swap_at [simp]: "length (swap_at d p q) = length d"
  by (simp add: swap_at_def)

lemma length_fold_same:
  assumes "\<And>x d. length (f x d) = length d"
  shows "length (fold f xs d) = length d"
  using assms by (induction xs arbitrary: d) simp_all

lemma flip_horizontally_fields [simp]:
  "w (flip_horizontally img) = w img" "h (flip_horizontally img) = h img"
  "bpp (flip_horizontally img) = bpp img"
  "length (data (flip_horizontally img)) = length (data img)"
  by (simp_all add: flip_horizontally_def Let_def length_fold_same)

lemma flip_vertically_fields [simp]:
  "w (flip_vertically img) = w img" "h (flip_vertically img) = h img"
  "bpp (flip_vertically img) = bpp img"
  "length (data (flip_vertically img)) = length (data img)"
  by (simp_all add: flip_vertically_def Let_def length_fold_same)

lemma set_tga_fields [simp]:
  "w (set_tga img x y c) = w img" "h (set_tga img x y c) = h img"
  "bpp (set_tga img x y c) = bpp img"
  "length (data (set_tga img x y c)) = length (data img)"
  by (simp_all add: set_tga_def)

lemma fold_fields:
  assumes "\<And>x i. w (f x i) = w i \<and> h (f x i) = h i \<and> bpp (f x i) = bpp i \<and>
             length (data (f x i)) = length (data i)"
  shows "w (fold f xs i) = w i \<and> h (fold f xs i) = h i \<and> bpp (fold f xs i) = bpp i \<and>
         length (data (fold f xs i)) = length (data i)"
  using assms by (induction xs arbitrary: i) simp_all

lemma int32_id: "int_ok n \<Longrightarrow> int32 n = n"
  by (simp add: int_ok_def int32_def)

lemma int32_mult_left: "int32 (int32 a * b) = int32 (a * b)"
proof -
  have "int32 a mod 4294967296 = a mod 4294967296"
    by (simp add: int32_def mod_simps)
  then have "(int32 a * b) mod 4294967296 = (a * b) mod 4294967296"
    by (metis mod_mult_left_eq)
  then have "(int32 a * b + 2147483648) mod 4294967296 = (a * b + 2147483648) mod 4294967296"
    by (metis mod_add_left_eq)
  then show ?thesis by (simp add: int32_def)
qed

lemma int32_product: "int_ok (a * b * c) \<Longrightarrow> int32 (int32 (a * b) * c) = a * b * c"
  by (simp add: int32_mult_left int32_id)

lemma TGAImage_fill_inv:
  assumes "TGAImage_fill w0 h0 bpp0 c = Inr img" "0 \<le> bpp0" "bpp0 < 256"
    and ok: "int_ok (w0 * h0 * bpp0)"
  shows "buffer_inv img"
proof -
  let ?init = "\<lparr>w = w0, h = h0, bpp = word_of_int bpp0, data = replicate (nat (w0 * h0 * bpp0)) 0\<rparr>"
  let ?f = "\<lambda>j. fold (\<lambda>i img. set_tga img (int i) (int j) c) [0..<nat w0]"
  from assms(1) have nn: "0 \<le> w0 * h0 * bpp0" and img: "img = fold ?f [0..<nat h0] ?init"
    by (simp_all add: TGAImage_fill_def Let_def int32_product [OF ok] split: if_splits)
  have "w (fold ?f [0..<nat h0] ?init) = w ?init \<and> h (fold ?f [0..<nat h0] ?init) = h ?init \<and>
        bpp (fold ?f [0..<nat h0] ?init) = bpp ?init \<and>
        length (data (fold ?f [0..<nat h0] ?init)) = length (data ?init)"
    by (rule fold_fields) (rule fold_fields, simp)
  moreover from assms(2,3) have "uint (word_of_int bpp0 :: u8) = bpp0"
    by (simp add: uint_word_of_int take_bit_int_eq_self)
  ultimately show ?thesis using nn by (simp add: buffer_inv_def img)
qed

lemma store_byte_length [simp]: "length (buf (store_byte v s)) = length (buf s)"
  by (simp add: store_byte_def)

lemma store_pixel_length [simp]: "length (buf (store_pixel px s)) = length (buf s)"
  unfolding store_pixel_def by (induction px arbitrary: s) simp_all

lemma raw_chunk_length: "raw_chunk B pc n s = Inr s' \<Longrightarrow> length (buf s') = length (buf s)"
proof (induction n arbitrary: s)
  case 0
  then show ?case by simp
next
  case (Suc n)
  let ?s1 = "store_pixel (take B (input s)) (s\<lparr>input := drop B (input s)\<rparr>)"
  from Suc.prems have "raw_chunk B pc n (?s1\<lparr>currentpixel := currentpixel ?s1 + 1\<rparr>) = Inr s'"
    by (simp add: Let_def split: if_splits)
  from Suc.IH [OF this] show ?case by simp
qed

lemma rep_chunk_length: "rep_chunk px pc n s = Inr s' \<Longrightarrow> length (buf s') = length (buf s)"
proof (induction n arbitrary: s)
  case 0
  then show ?case by simp
next
  case (Suc n)
  let ?s1 = "store_pixel px s"
  from Suc.prems have "rep_chunk px pc n (?s1\<lparr>currentpixel := currentpixel ?s1 + 1\<rparr>) = Inr s'"
    by (simp add: Let_def split: if_splits)
  from Suc.IH [OF this] show ?case by simp
qed

lemma rle_chunk_length: "rle_chunk B pc hdr s = Inr s' \<Longrightarrow> length (buf s') = length (buf s)"
  by (auto simp: rle_chunk_def split: if_splits dest: raw_chunk_length rep_chunk_length)

lemma load_rle_loop_length:
  "load_rle_loop B pc s = Inr s' \<Longrightarrow> length (buf s') = length (buf s)"
proof (induction B pc s rule: load_rle_loop.induct)
  case (1 B pixelcount s)
  note unfold = load_rle_loop.simps [of B pixelcount s]
  from "1.prems" obtain chunkheader rest where inp: "input s = chunkheader # rest"
    by (cases "input s") (simp_all add: unfold)
  from "1.prems" inp obtain s1 where
    ch: "rle_chunk B pixelcount chunkheader (s\<lparr>input := rest\<rparr>) = Inr s1"
    by (cases "rle_chunk B pixelcount chunkheader (s\<lparr>input := rest\<rparr>)") (simp_all add: unfold)
  from rle_chunk_length [OF ch] have l1: "length (buf s1) = length (buf s)" by simp
  show ?case
  proof (cases "currentpixel s1 < pixelcount")
    case True
    with "1.prems" inp ch have "load_rle_loop B pixelcount s1 = Inr s'" by (simp add: unfold)
    from "1.IH" [OF inp ch True this] l1 show ?thesis by simp
  next
    case False
    with "1.prems" inp ch have "s' = s1" by (simp add: unfold)
    with l1 show ?thesis by simp
  qed
qed

lemma read_pixel_data_fields:
  assumes "read_pixel_data header img ins = Inr img1"
  shows "w img1 = w img \<and> h img1 = h img \<and> bpp img1 = bpp img \<and>
         length (data img1) = length (data img)"
proof (cases "3 = datatypecode header \<or> 2 = datatypecode header")
  case True
  with assms show ?thesis by (auto simp: read_pixel_data_def Let_def split: if_splits)
next
  case False
  with assms obtain s where s: "load_rle_data img ins = Inr s" and i1: "img1 = img\<lparr>data := buf s\<rparr>"
    by (auto simp: read_pixel_data_def Let_def split: if_splits sum.splits)
  from load_rle_loop_length [OF s [unfolded load_rle_data_def]] i1 show ?thesis by simp
qed

lemma normalize_origin_fields [simp]:
  "w (normalize_origin header img) = w img" "h (normalize_origin header img) = h img"
  "bpp (normalize_origin header img) = bpp img"
  "length (data (normalize_origin header img)) = length (data img)"
  by (simp_all add: normalize_origin_def Let_def)

lemma read_tga_file_Inr:
  assumes "read_tga_file file = Inr img"
  obtains header img1 where
    "header = parse_header (take 18 file)" "18 \<le> length file"
    "0 < uint (width header)" "0 < uint (height header)"
    "drop_bit 3 (bitsperpixel header) = 1 \<or> drop_bit 3 (bitsperpixel header) = 3 \<or>
     drop_bit 3 (bitsperpixel header) = 4"
    "0 \<le> int32 (int32 (uint (width header) * uint (height header)) *
                 uint (drop_bit 3 (bitsperpixel header)))"
    "read_pixel_data header
       \<lparr>w = uint (width header), h = uint (height header), bpp = drop_bit 3 (bitsperpixel header),
        data = replicate (nat (int32 (int32 (uint (width header) * uint (height header)) *
                                      uint (drop_bit 3 (bitsperpixel header))))) 0\<rparr>
       (drop 18 file) = Inr img1"
    "img = normalize_origin header img1"
proof -
  define header where "header = parse_header (take 18 file)"
  define w1 where "w1 = uint (width header)"
  define h1 where "h1 = uint (height header)"
  define bpp1 where "bpp1 = drop_bit 3 (bitsperpixel header)"
  define nbytes where "nbytes = int32 (int32 (w1 * h1) * uint bpp1)"
  define img0 where "img0 = \<lparr>w = w1, h = h1, bpp = bpp1, data = replicate (nat nbytes) 0\<rparr>"
  have eq: "read_tga_file file =
     (if length file < 18 then Inl TruncatedHeader
      else if w1 \<le> 0 \<or> h1 \<le> 0 \<or> (bpp1 \<noteq> 1 \<and> bpp1 \<noteq> 3 \<and> bpp1 \<noteq> 4) then Inl InvalidDimensions
      else if nbytes < 0 then Inl AllocFailure
      else (case read_pixel_data header img0 (drop 18 file) of
              Inl e \<Rightarrow> Inl e | Inr img \<Rightarrow> Inr (normalize_origin header img)))"
    unfolding read_tga_file_def Let_def header_def w1_def h1_def bpp1_def nbytes_def img0_def ..
  have c1: "\<not> length file < 18"
    using assms eq by (cases "length file < 18") simp_all
  have c2: "\<not> (w1 \<le> 0 \<or> h1 \<le> 0 \<or> (bpp1 \<noteq> 1 \<and> bpp1 \<noteq> 3 \<and> bpp1 \<noteq> 4))"
    using assms eq c1
    by (cases "w1 \<le> 0 \<or> h1 \<le> 0 \<or> (bpp1 \<noteq> 1 \<and> bpp1 \<noteq> 3 \<and> bpp1 \<noteq> 4)") simp_all
  have c3: "\<not> nbytes < 0"
    using assms eq c1 c2 by (cases "nbytes < 0") simp_all
  from assms eq c1 c2 c3 have
    "(case read_pixel_data header img0 (drop 18 file) of
        Inl e \<Rightarrow> Inl e | Inr img \<Rightarrow> Inr (normalize_origin header img)) = Inr img"
    by simp
  then obtain img1 where rd: "read_pixel_data header img0 (drop 18 file) = Inr img1"
    and img: "img = normalize_origin header img1"
    by (cases "read_pixel_data header img0 (drop 18 file)") simp_all
  show thesis
  proof (rule that [of header img1])
    show "header = parse_header (take 18 file)" by (rule header_def)
    from c1 show "18 \<le> length file" by simp
    from c2 have "\<not> w1 \<le> 0" "\<not> h1 \<le> 0" by blast+
    then show "0 < uint (width header)" "0 < uint (height header)"
      unfolding w1_def h1_def by linarith+
    from c2 show "drop_bit 3 (bitsperpixel header) = 1 \<or> drop_bit 3 (bitsperpixel header) = 3 \<or>
        drop_bit 3 (bitsperpixel header) = 4"
      unfolding bpp1_def by blast
    from c3 show "0 \<le> int32 (int32 (uint (width header) * uint (height header)) *
                 uint (drop_bit 3 (bitsperpixel header)))"
      by (simp add: nbytes_def w1_def h1_def bpp1_def)
    from rd show "read_pixel_data header
       \<lparr>w = uint (width header), h = uint (height header), bpp = drop_bit 3 (bitsperpixel header),
        data = replicate (nat (int32 (int32 (uint (width header) * uint (height header)) *
                                      uint (drop_bit 3 (bitsperpixel header))))) 0\<rparr>
       (drop 18 file) = Inr img1"
      by (simp add: img0_def nbytes_def w1_def h1_def bpp1_def)
    show "img = normalize_origin header img1" by (rule img)
  qed
qed

lemma read_tga_file_length:
  assumes "read_tga_file file = Inr img"
  shows "int (length (data img)) = int32 (int32 (w img * h img) * uint (bpp img))"
proof -
  from assms obtain header img1 where
    nn: "0 \<le> int32 (int32 (uint (width header) * uint (height header)) *
                 uint (drop_bit 3 (bitsperpixel header)))" and
    rd: "read_pixel_data header
       \<lparr>w = uint (width header), h = uint (height header), bpp = drop_bit 3 (bitsperpixel header),
        data = replicate (nat (int32 (int32 (uint (width header) * uint (height header)) *
                                      uint (drop_bit 3 (bitsperpixel header))))) 0\<rparr>
       (drop 18 file) = Inr img1" and
    img: "img = normalize_origin header img1"
    by (rule read_tga_file_Inr)
  from read_pixel_data_fields [OF rd] nn show ?thesis by (simp add: img)
qed

lemma read_tga_file_inv:
  assumes "read_tga_file file = Inr img" "int_ok (w img * h img * uint (bpp img))"
  shows "buffer_inv img"
  using read_tga_file_length [OF assms(1)] int32_product [OF assms(2)]
  by (simp add: buffer_inv_def)

lemma set_tga_empty: "data img = [] \<Longrightarrow> set_tga img x y c = img"
  by (simp add: set_tga_def)

lemma fold_set_tga_empty:
  "data img = [] \<Longrightarrow> fold (\<lambda>i img. set_tga img (int i) y c) xs img = img"
  by (induction xs) (simp_all add: set_tga_empty)

lemma fold_fold_set_tga_empty:
  "data img = [] \<Longrightarrow>
   fold (\<lambda>j. fold (\<lambda>i img. set_tga img (int i) (int j) c) xs) ys img = img"
  by (induction ys) (simp_all add: fold_set_tga_empty)

text \<open>
  Claim C9, as stated (the buffer has \<^verbatim>\<open>w*h*bpp\<close> bytes after construction and after every
  successful read), fails where the product \<^verbatim>\<open>w*h*bpp\<close> leaves the range of \<^verbatim>\<open>int\<close>, and
  in the constructor also where \<^verbatim>\<open>bpp\<close> does not fit the byte-sized member.
  The header of a 46341 by 46341 image of 32 bits per pixel, stored raw with a top-left origin,
  followed by 18532 bytes is read with success: \<^verbatim>\<open>nbytes\<close> is \<open>46341 * 46341 * 4\<close> reduced
  modulo \<open>2^32\<close>, which is 18532, and the image returned has a buffer of 18532 bytes.
  \<^verbatim>\<open>TGAImage(65536, 65536, 1, c)\<close> has an empty buffer, every \<^verbatim>\<open>set\<close> of its loops
  returning at the guard, and \<^verbatim>\<open>TGAImage(1, 1, 256, c)\<close> has \<^verbatim>\<open>bpp = 0\<close> and 256 bytes.
\<close>

theorem buffer_inv_overflow_counterexample:
  "read_tga_file ([0, 0, 2, 0, 0, 0, 0, 0, 0, 0, 0, 0, 5, 181, 5, 181, 32, 32] @ replicate 18532 0)
     = Inr \<lparr>w = 46341, h = 46341, bpp = 4, data = replicate 18532 0\<rparr> \<and>
   \<not> buffer_inv \<lparr>w = 46341, h = 46341, bpp = 4, data = replicate 18532 0\<rparr> \<and>
   TGAImage_fill 65536 65536 1 \<lparr>bgra = [1, 2, 3, 4], bytespp = 4\<rparr>
     = Inr \<lparr>w = 65536, h = 65536, bpp = 1, data = []\<rparr> \<and>
   \<not> buffer_inv \<lparr>w = 65536, h = 65536, bpp = 1, data = []\<rparr> \<and>
   TGAImage_fill 1 1 256 \<lparr>bgra = [1, 2, 3, 4], bytespp = 4\<rparr>
     = Inr \<lparr>w = 1, h = 1, bpp = 0, data = replicate 256 0\<rparr> \<and>
   \<not> buffer_inv \<lparr>w = 1, h = 1, bpp = 0, data = replicate 256 0\<rparr>"
proof (intro conjI)
  define header where "header = parse_header [0, 0, 2, 0, 0, 0, 0, 0, 0, 0, 0, 0, 5, 181, 5, 181, 32, 32]"
  have hd: "datatypecode header = 2" "width header = 46341" "height header = 46341"
    "bitsperpixel header = 32" "imagedescriptor header = 32"
    unfolding header_def by code_simp+
  have b: "drop_bit 3 (32 :: u8) = 4" by code_simp
  have n: "int32 (int32 (46341 * 46341) * 4) = 18532" by (simp add: int32_def)
  have rp: "read_pixel_data header \<lparr>w = 46341, h = 46341, bpp = 4, data = replicate 18532 0\<rparr>
              (replicate 18532 0)
            = Inr \<lparr>w = 46341, h = 46341, bpp = 4, data = replicate 18532 0\<rparr>"
    by (simp add: read_pixel_data_def hd)
  have no: "normalize_origin header \<lparr>w = 46341, h = 46341, bpp = 4, data = replicate 18532 0\<rparr>
            = \<lparr>w = 46341, h = 46341, bpp = 4, data = replicate 18532 0\<rparr>"
    by (simp add: normalize_origin_def hd)
  show "read_tga_file ([0, 0, 2, 0, 0, 0, 0, 0, 0, 0, 0, 0, 5, 181, 5, 181, 32, 32] @ replicate 18532 0)
     = Inr \<lparr>w = 46341, h = 46341, bpp = 4, data = replicate 18532 0\<rparr>"
    using n by (simp add: read_tga_file_def Let_def header_def [symmetric] hd b rp no)
  show "\<not> buffer_inv \<lparr>w = 46341, h = 46341, bpp = 4, data = replicate 18532 0\<rparr>"
    by (simp add: buffer_inv_def)
  have "int32 (int32 (65536 * 65536) * 1) = 0" by (simp add: int32_def)
  then show "TGAImage_fill 65536 65536 1 \<lparr>bgra = [1, 2, 3, 4], bytespp = 4\<rparr>
     = Inr \<lparr>w = 65536, h = 65536, bpp = 1, data = []\<rparr>"
    by (simp add: TGAImage_fill_def fold_fold_set_tga_empty)
  show "\<not> buffer_inv \<lparr>w = 65536, h = 65536, bpp = 1, data = []\<rparr>"
    by (simp add: buffer_inv_def)
  have "int32 (int32 (1 * 1) * 256) = 256" by (simp add: int32_def)
  then show "TGAImage_fill 1 1 256 \<lparr>bgra = [1, 2, 3, 4], bytespp = 4\<rparr>
     = Inr \<lparr>w = 1, h = 1, bpp = 0, data = replicate 256 0\<rparr>"
    by (simp add: TGAImage_fill_def set_tga_def memcpy_def)
  show "\<not> buffer_inv \<lparr>w = 1, h = 1, bpp = 0, data = replicate 256 0\<rparr>"
    by (simp add: buffer_inv_def)
qed

text \<open>
  Claim C9, within the range of \<^verbatim>\<open>int\<close>. The invariant \<open>length data = w*h*bpp\<close> holds
  after the filling constructor called with a \<^verbatim>\<open>bpp\<close> that fits the byte-sized member and
  a product \<^verbatim>\<open>w*h*bpp\<close> in the range of \<^verbatim>\<open>int\<close>, and after every successful read of a
  file whose header gives a product \<^verbatim>\<open>w*h*bpp\<close> in the range of \<^verbatim>\<open>int\<close>.
  \<^verbatim>\<open>set\<close>, \<^verbatim>\<open>flip_horizontally\<close> and \<^verbatim>\<open>flip_vertically\<close> never change \<^verbatim>\<open>w\<close>,
  \<^verbatim>\<open>h\<close>, \<^verbatim>\<open>bpp\<close> or the length of the buffer, so they preserve the invariant.
  \<^verbatim>\<open>get\<close> is a function from the state to a colour: it has no state to return.
\<close>

theorem buffer_inv_in_range:
  "(0 \<le> bpp0 \<and> bpp0 < 256 \<and> int_ok (w0 * h0 * bpp0) \<and>
    TGAImage_fill w0 h0 bpp0 c0 = Inr img0 \<longrightarrow> buffer_inv img0) \<and>
   (read_tga_file file = Inr img1 \<and> int_ok (w img1 * h img1 * uint (bpp img1)) \<longrightarrow>
      buffer_inv img1) \<and>
   (w (set_tga img x y c) = w img \<and> h (set_tga img x y c) = h img \<and>
    bpp (set_tga img x y c) = bpp img \<and> length (data (set_tga img x y c)) = length (data img)) \<and>
   (w (flip_horizontally img) = w img \<and> h (flip_horizontally img) = h img \<and>
    bpp (flip_horizontally img) = bpp img \<and>
    length (data (flip_horizontally img)) = length (data img)) \<and>
   (w (flip_vertically img) = w img \<and> h (flip_vertically img) = h img \<and>
    bpp (flip_vertically img) = bpp img \<and>
    length (data (flip_vertically img)) = length (data img)) \<and>
   (buffer_inv img \<longrightarrow>
      buffer_inv (set_tga img x y c) \<and> buffer_inv (flip_horizontally img) \<and>
      buffer_inv (flip_vertically img))"
proof (intro conjI impI)
  assume "0 \<le> bpp0 \<and> bpp0 < 256 \<and> int_ok (w0 * h0 * bpp0) \<and>
    TGAImage_fill w0 h0 bpp0 c0 = Inr img0"
  then show "buffer_inv img0" using TGAImage_fill_inv by blast
next
  assume "read_tga_file file = Inr img1 \<and> int_ok (w img1 * h img1 * uint (bpp img1))"
  then show "buffer_inv img1" using read_tga_file_inv by blast
qed (simp_all add: buffer_inv_def)

theorem buffer_inv_in_range_witness:
  "(0 :: int) \<le> 3 \<and> (3 :: int) < 256 \<and> int_ok (2 * 1 * 3) \<and>
   TGAImage_fill 2 1 3 \<lparr>bgra = [7, 8, 9, 10], bytespp = 4\<rparr>
     = Inr \<lparr>w = 2, h = 1, bpp = 3, data = [7, 8, 9, 7, 8, 9]\<rparr> \<and>
   buffer_inv \<lparr>w = 2, h = 1, bpp = 3, data = [7, 8, 9, 7, 8, 9]\<rparr> \<and>
   read_tga_file [0, 0, 3, 0, 0, 0, 0, 0, 0, 0, 0, 0, 1, 0, 2, 0, 8, 0, 1, 2]
     = Inr \<lparr>w = 1, h = 2, bpp = 1, data = [2, 1]\<rparr> \<and>
   int_ok (w \<lparr>w = 1, h = 2, bpp = 1, data = [2, 1]\<rparr> * h \<lparr>w = 1, h = 2, bpp = 1, data = [2, 1]\<rparr> *
           uint (bpp \<lparr>w = 1, h = 2, bpp = 1, data = [2, 1]\<rparr>)) \<and>
   buffer_inv \<lparr>w = 1, h = 2, bpp = 1, data = [2, 1]\<rparr> \<and>
   buffer_inv (set_tga \<lparr>w = 2, h = 1, bpp = 3, data = [7, 8, 9, 7, 8, 9]\<rparr> 1 0
                 \<lparr>bgra = [1, 2, 3, 4], bytespp = 4\<rparr>) \<and>
   buffer_inv (flip_horizontally \<lparr>w = 2, h = 1, bpp = 3, data = [7, 8, 9, 7, 8, 9]\<rparr>) \<and>
   buffer_inv (flip_vertically \<lparr>w = 2, h = 1, bpp = 3, data = [7, 8, 9, 7, 8, 9]\<rparr>)"
proof -
  have fill: "TGAImage_fill 2 1 3 \<lparr>bgra = [7, 8, 9, 10], bytespp = 4\<rparr>
      = Inr \<lparr>w = 2, h = 1, bpp = 3, data = [7, 8, 9, 7, 8, 9]\<rparr>"
    by code_simp
  have rd: "read_tga_file [0, 0, 3, 0, 0, 0, 0, 0, 0, 0, 0, 0, 1, 0, 2, 0, 8, 0, 1, 2]
      = Inr \<lparr>w = 1, h = 2, bpp = 1, data = [2, 1]\<rparr>"
    by code_simp
  have ok: "int_ok (2 * 1 * 3)" by (simp add: int_ok_def)
  from buffer_inv_in_range [of 3 2 1 "\<lparr>bgra = [7, 8, 9, 10], bytespp = 4\<rparr>"
      "\<lparr>w = 2, h = 1, bpp = 3, data = [7, 8, 9, 7, 8, 9]\<rparr>"
      "[0, 0, 3, 0, 0, 0, 0, 0, 0, 0, 0, 0, 1, 0, 2, 0, 8, 0, 1, 2]"
      "\<lparr>w = 1, h = 2, bpp = 1, data = [2, 1]\<rparr>"
      "\<lparr>w = 2, h = 1, bpp = 3, data = [7, 8, 9, 7, 8, 9]\<rparr>" 1 0
      "\<lparr>bgra = [1, 2, 3, 4], bytespp = 4\<rparr>"] fill rd ok
  show ?thesis by (simp add: int_ok_def)
qed

section \<open>Flipping twice\<close>

text \<open>
  The swaps of one flip touch pairwise disjoint pairs of byte positions, so they commute, and
  each swap undoes itself: running the whole loop nest a second time undoes the first run.
\<close>

lemma swap_at_twice:
  assumes "p < length d" "q < length d"
  shows "swap_at (swap_at d p q) p q = d"
proof (rule nth_equalityI)
  show "length (swap_at (swap_at d p q) p q) = length d" by simp
next
  fix k assume "k < length (swap_at (swap_at d p q) p q)"
  then have "k < length d" by simp
  with assms show "swap_at (swap_at d p q) p q ! k = d ! k"
    by (simp add: swap_at_def nth_list_update)
qed

lemma swap_at_commute:
  assumes "p \<noteq> r" "p \<noteq> s" "q \<noteq> r" "q \<noteq> s"
  shows "swap_at (swap_at d p q) r s = swap_at (swap_at d r s) p q"
  using assms
  by (simp add: swap_at_def list_update_swap [of p r] list_update_swap [of q r]
        list_update_swap [of p s] list_update_swap [of q s])

lemma fold_commute_each:
  assumes "\<And>x d. x \<in> set xs \<Longrightarrow> g (f x d) = f x (g d)"
  shows "g (fold f xs d) = fold f xs (g d)"
  using assms by (induction xs arbitrary: d) simp_all

lemma fold_involution:
  fixes f :: "'a \<Rightarrow> 'b list \<Rightarrow> 'b list"
  assumes inv: "\<And>x d. x \<in> set xs \<Longrightarrow> length d = n \<Longrightarrow> f x (f x d) = d"
    and len: "\<And>x d. x \<in> set xs \<Longrightarrow> length (f x d) = length d"
    and comm: "\<And>x y d. x \<in> set xs \<Longrightarrow> y \<in> set xs \<Longrightarrow> f x (f y d) = f y (f x d)"
    and "length d = n"
  shows "fold f xs (fold f xs d) = d"
  using assms
proof (induction xs arbitrary: d)
  case Nil
  then show ?case by simp
next
  case (Cons x xs)
  have "f x (fold f xs (f x d)) = fold f xs (f x (f x d))"
    by (rule fold_commute_each) (simp add: Cons.prems(3))
  also have "f x (f x d) = d" using Cons.prems(1,4) by simp
  finally have "fold f (x # xs) (fold f (x # xs) d) = fold f xs (fold f xs d)" by simp
  also have "\<dots> = d"
    by (rule Cons.IH) (simp_all add: Cons.prems)
  finally show ?case .
qed

lemma fold_product:
  "fold (\<lambda>(x, y). f x y) (List.product xs ys) = fold (\<lambda>x. fold (f x) ys) xs"
  by (induction xs) (simp_all add: fold_map comp_def)

lemma fold_triples:
  "fold (\<lambda>i. fold (\<lambda>j. fold (f i j) bs) js) is =
   fold (\<lambda>(i, j, b). f i j b) (List.product is (List.product js bs))"
proof -
  have "fold (\<lambda>(i, j, b). f i j b) (List.product is (List.product js bs)) =
        fold (\<lambda>i. fold (\<lambda>(j, b). f i j b) (List.product js bs)) is"
    using fold_product [of "\<lambda>i (j, b). f i j b" "is" "List.product js bs"]
    by (simp add: case_prod_unfold)
  also have "\<dots> = fold (\<lambda>i. fold (\<lambda>j. fold (f i j) bs) js) is"
    by (simp add: fold_product)
  finally show ?thesis by simp
qed

text \<open>
  The byte index \<open>(x + j * W) * B + b\<close> of channel \<open>b\<close> of the cell in column \<open>x\<close> and row
  \<open>j\<close> determines the three of them, and lies inside a buffer of \<open>W * H * B\<close> bytes.
\<close>

lemma cell_index_inj:
  fixes W B :: nat
  assumes "x < W" "x' < W" "b < B" "b' < B"
    and "(x + j * W) * B + b = (x' + j' * W) * B + b'"
  shows "x = x' \<and> j = j' \<and> b = b'"
proof -
  from assms(3) have d1: "((x + j * W) * B + b) div B = x + j * W" by simp
  from assms(4) have d2: "((x' + j' * W) * B + b') div B = x' + j' * W" by simp
  from assms(3) have m1: "((x + j * W) * B + b) mod B = b" by simp
  from assms(4) have m2: "((x' + j' * W) * B + b') mod B = b'" by simp
  from d1 d2 assms(5) have e: "x + j * W = x' + j' * W" by simp
  from m1 m2 assms(5) have b: "b = b'" by simp
  from assms(1) have "(x + j * W) div W = j" "(x + j * W) mod W = x" by simp_all
  moreover from assms(2) have "(x' + j' * W) div W = j'" "(x' + j' * W) mod W = x'" by simp_all
  ultimately have "j = j'" "x = x'" using e by simp_all
  with b show ?thesis by simp
qed

lemma cell_index_less:
  fixes W H B :: nat
  assumes "x < W" "j < H" "b < B"
  shows "(x + j * W) * B + b < W * H * B"
proof -
  from assms(1) have "x + j * W + 1 \<le> (j + 1) * W" by simp
  also from assms(2) have "\<dots> \<le> H * W" by (intro mult_le_mono1) simp
  finally have "(x + j * W + 1) * B \<le> H * W * B" by (rule mult_le_mono1)
  moreover from assms(3) have "(x + j * W) * B + b < (x + j * W + 1) * B" by simp
  ultimately show ?thesis by (simp add: mult.commute)
qed



lemma vflip_swaps_involution:
  fixes W H B :: nat
  assumes len: "0 < W \<Longrightarrow> 0 < H \<Longrightarrow> length d = W * H * B"
  defines "f \<equiv> \<lambda>(i, j, b) d. swap_at d ((i + j * W) * B + b) ((i + (H - 1 - j) * W) * B + b)"
  defines "ts \<equiv> List.product [0..<W] (List.product [0..<H div 2] [0..<B])"
  shows "fold f ts (fold f ts d) = d"
proof (rule fold_involution [where n = "length d"])
  fix t and d' :: "u8 list" assume t: "t \<in> set ts" and l: "length d' = length d"
  obtain i j b where tt: "t = (i, j, b)" by (cases t)
  with t have r: "i < W" "j < H div 2" "b < B" by (auto simp: ts_def)
  then have jH: "j < H" "H - 1 - j < H" by auto
  from r jH len l have "length d' = W * H * B" by simp
  with cell_index_less [OF r(1) jH(1) r(3)] cell_index_less [OF r(1) jH(2) r(3)]
  show "f t (f t d') = d'" by (simp add: tt f_def swap_at_twice)
next
  fix t and d' :: "u8 list" assume "t \<in> set ts"
  show "length (f t d') = length d'" by (cases t) (simp add: f_def)
next
  fix t t' and d' :: "u8 list" assume t: "t \<in> set ts" and t': "t' \<in> set ts"
  obtain i j b where tt: "t = (i, j, b)" by (cases t)
  obtain i' j' b' where tt': "t' = (i', j', b')" by (cases t')
  from t tt have r: "i < W" "j < H div 2" "b < B" by (auto simp: ts_def)
  from t' tt' have r': "i' < W" "j' < H div 2" "b' < B" by (auto simp: ts_def)
  from r(2) r'(2) have m1: "j' \<noteq> H - 1 - j" and m2: "H - 1 - j' \<noteq> j"
    and m3: "H - 1 - j' = H - 1 - j \<Longrightarrow> j' = j"
    by arith+
  show "f t (f t' d') = f t' (f t d')"
  proof (cases "t = t'")
    case True
    then show ?thesis by simp
  next
    case False
    with tt tt' have ne: "\<not> (i' = i \<and> j' = j \<and> b' = b)" by auto
    have 1: "(i' + j' * W) * B + b' \<noteq> (i + j * W) * B + b"
    proof
      assume "(i' + j' * W) * B + b' = (i + j * W) * B + b"
      from cell_index_inj [OF r'(1) r(1) r'(3) r(3) this] ne show False by simp
    qed
    have 2: "(i' + j' * W) * B + b' \<noteq> (i + (H - 1 - j) * W) * B + b"
    proof
      assume "(i' + j' * W) * B + b' = (i + (H - 1 - j) * W) * B + b"
      from cell_index_inj [OF r'(1) r(1) r'(3) r(3) this] m1 show False by simp
    qed
    have 3: "(i' + (H - 1 - j') * W) * B + b' \<noteq> (i + j * W) * B + b"
    proof
      assume "(i' + (H - 1 - j') * W) * B + b' = (i + j * W) * B + b"
      from cell_index_inj [OF r'(1) r(1) r'(3) r(3) this] m2 show False by simp
    qed
    have 4: "(i' + (H - 1 - j') * W) * B + b' \<noteq> (i + (H - 1 - j) * W) * B + b"
    proof
      assume "(i' + (H - 1 - j') * W) * B + b' = (i + (H - 1 - j) * W) * B + b"
      from cell_index_inj [OF r'(1) r(1) r'(3) r(3) this] m3 ne show False by simp
    qed
    from swap_at_commute [OF 1 2 3 4] show ?thesis by (simp add: tt tt' f_def)
  qed
qed simp

lemma buffer_inv_length:
  assumes "buffer_inv img" "0 < nat (w img)" "0 < nat (h img)"
  shows "length (data img) = nat (w img) * nat (h img) * unat (bpp img)"
proof -
  from assms have "int (length (data img)) = int (nat (w img) * nat (h img) * unat (bpp img))"
    by (simp add: buffer_inv_def)
  then show ?thesis by (simp only: of_nat_eq_iff)
qed


lemma flip_vertically_twice:
  assumes "buffer_inv img"
  shows "flip_vertically (flip_vertically img) = img"
proof -
  have "data (flip_vertically (flip_vertically img)) = data img"
    unfolding flip_vertically_def Let_def
    using vflip_swaps_involution [of "nat (w img)" "nat (h img)" "data img" "unat (bpp img)",
        OF buffer_inv_length [OF assms]]
    by (simp add: fold_triples)
  then show ?thesis by (simp add: flip_vertically_def Let_def)
qed



section \<open>Decoding what the encoder wrote\<close>

text \<open>
  A store inside the buffer replaces the bytes at \<open>currentbyte\<close>; a packet whose pixels fit
  the pixel count and the buffer is decoded without error and without a store outside the
  buffer.
\<close>

lemma store_byte_fields:
  "input (store_byte v s) = input s" "currentpixel (store_byte v s) = currentpixel s"
  "currentbyte (store_byte v s) = currentbyte s + 1"
  "buf (store_byte v s) = (buf s)[currentbyte s := v]"
  "currentbyte s < length (buf s) \<Longrightarrow> oob (store_byte v s) = oob s"
  by (simp_all add: store_byte_def)

lemma store_pixel_counters [simp]:
  "currentpixel (store_pixel px s) = currentpixel s"
  "currentbyte (store_pixel px s) = currentbyte s + length px"
  unfolding store_pixel_def by (induction px arbitrary: s) (simp_all add: store_byte_fields)

lemma store_pixel_in_range_aux:
  "currentbyte s + length px \<le> length (buf s) \<Longrightarrow>
   buf (store_pixel px s) =
     take (currentbyte s) (buf s) @ px @ drop (currentbyte s + length px) (buf s) \<and>
   oob (store_pixel px s) = oob s"
proof (induction px arbitrary: s)
  case Nil
  show ?case by (simp add: store_pixel_def)
next
  case (Cons v px)
  let ?s1 = "store_byte v s"
  have sp: "store_pixel (v # px) s = store_pixel px ?s1" by (simp add: store_pixel_def)
  from Cons.prems have lt: "currentbyte s < length (buf s)" by simp
  from Cons.prems have le: "currentbyte ?s1 + length px \<le> length (buf ?s1)"
    by (simp add: store_byte_fields)
  from lt have t: "take (Suc (currentbyte s)) ((buf s)[currentbyte s := v]) = take (currentbyte s) (buf s) @ [v]"
    by (simp add: take_Suc_conv_app_nth)
  have d: "drop (Suc (currentbyte s + length px)) ((buf s)[currentbyte s := v]) =
      drop (Suc (currentbyte s + length px)) (buf s)"
    by simp
  from Cons.IH [OF le] t d lt show ?case by (simp add: sp store_byte_fields)
qed

lemma store_pixel_in_range:
  assumes "currentbyte s + length px \<le> length (buf s)"
  shows "buf (store_pixel px s) =
           take (currentbyte s) (buf s) @ px @ drop (currentbyte s + length px) (buf s)"
    and "oob (store_pixel px s) = oob s"
  using store_pixel_in_range_aux [OF assms] by simp_all

lemma raw_chunk_ok:
  assumes "n * B \<le> length (input s)" "currentpixel s + n \<le> pc"
    and "currentbyte s + n * B \<le> length (buf s)"
  shows "\<exists>s'. raw_chunk B pc n s = Inr s' \<and> input s' = drop (n * B) (input s) \<and>
           buf s' = take (currentbyte s) (buf s) @ take (n * B) (input s) @
                    drop (currentbyte s + n * B) (buf s) \<and>
           currentpixel s' = currentpixel s + n \<and> currentbyte s' = currentbyte s + n * B \<and>
           oob s' = oob s"
  using assms
proof (induction n arbitrary: s)
  case 0
  then show ?case by simp
next
  case (Suc n)
  define px where "px = take B (input s)"
  define s1 where "s1 = store_pixel px (s\<lparr>input := drop B (input s)\<rparr>)"
  define s2 where "s2 = s1\<lparr>currentpixel := currentpixel s1 + 1\<rparr>"
  from Suc.prems(1) have lB: "B \<le> length (input s)" by simp
  then have lpx: "length px = B" by (simp add: px_def)
  from Suc.prems(3) lpx have rng: "currentbyte (s\<lparr>input := drop B (input s)\<rparr>) + length px
      \<le> length (buf (s\<lparr>input := drop B (input s)\<rparr>))" by simp
  from store_pixel_in_range [OF rng] lpx
  have buf2: "buf s2 = take (currentbyte s) (buf s) @ px @ drop (currentbyte s + B) (buf s)"
    and oob2: "oob s2 = oob s"
    by (simp_all add: s2_def s1_def)
  have cb2: "currentbyte s2 = currentbyte s + B" and cp2: "currentpixel s2 = currentpixel s + 1"
    and in2: "input s2 = drop B (input s)"
    using lpx by (simp_all add: s2_def s1_def store_pixel_input)
  have step: "raw_chunk B pc (Suc n) s = raw_chunk B pc n s2"
    using lB Suc.prems(2) by (simp add: Let_def s2_def s1_def px_def)
  have p1: "n * B \<le> length (input s2)" using Suc.prems(1) by (simp add: in2)
  have p2: "currentpixel s2 + n \<le> pc" using Suc.prems(2) by (simp add: cp2)
  from Suc.prems(3) have lcb: "currentbyte s \<le> length (buf s)" by simp
  have len2: "length (buf s2) = length (buf s)" by (simp add: s2_def s1_def)
  have p3: "currentbyte s2 + n * B \<le> length (buf s2)" using Suc.prems(3) by (simp add: cb2 len2)
  from Suc.IH [OF p1 p2 p3] obtain s' where
    r: "raw_chunk B pc n s2 = Inr s'" and
    i: "input s' = drop (n * B) (input s2)" and
    b: "buf s' = take (currentbyte s2) (buf s2) @ take (n * B) (input s2) @
                    drop (currentbyte s2 + n * B) (buf s2)" and
    c: "currentpixel s' = currentpixel s2 + n" "currentbyte s' = currentbyte s2 + n * B"
       "oob s' = oob s2"
    by blast
  have tk: "take (currentbyte s + B) (buf s2) = take (currentbyte s) (buf s) @ px"
    using lcb lpx by (simp add: buf2)
  have dr: "drop (currentbyte s + B + n * B) (buf s2) = drop (currentbyte s + B + n * B) (buf s)"
    using lcb lpx by (simp add: buf2 ac_simps)
  have tki: "px @ take (n * B) (drop B (input s)) = take (B + n * B) (input s)"
    by (simp add: take_add px_def)
  have "buf s' = (take (currentbyte s) (buf s) @ px) @ take (n * B) (drop B (input s)) @
                    drop (currentbyte s + B + n * B) (buf s)"
    unfolding b cb2 in2 tk dr ..
  also have "\<dots> = take (currentbyte s) (buf s) @ take (B + n * B) (input s) @
                    drop (currentbyte s + B + n * B) (buf s)"
    using tki by simp
  finally have "buf s' = take (currentbyte s) (buf s) @ take (Suc n * B) (input s) @
                    drop (currentbyte s + Suc n * B) (buf s)"
    by (simp add: add.assoc)
  moreover have "input s' = drop (Suc n * B) (input s)"
    by (simp add: i in2 add.commute)
  moreover have "currentpixel s' = currentpixel s + Suc n" "currentbyte s' = currentbyte s + Suc n * B"
    "oob s' = oob s"
    by (simp_all add: c cb2 cp2 oob2)
  ultimately show ?case using r step by simp
qed

lemma rep_chunk_ok:
  assumes "currentpixel s + n \<le> pc" and "currentbyte s + n * length px \<le> length (buf s)"
  shows "\<exists>s'. rep_chunk px pc n s = Inr s' \<and> input s' = input s \<and>
           buf s' = take (currentbyte s) (buf s) @ concat (replicate n px) @
                    drop (currentbyte s + n * length px) (buf s) \<and>
           currentpixel s' = currentpixel s + n \<and>
           currentbyte s' = currentbyte s + n * length px \<and> oob s' = oob s"
  using assms
proof (induction n arbitrary: s)
  case 0
  then show ?case by simp
next
  case (Suc n)
  define B where "B = length px"
  define s1 where "s1 = store_pixel px s"
  define s2 where "s2 = s1\<lparr>currentpixel := currentpixel s1 + 1\<rparr>"
  from Suc.prems(2) have rng: "currentbyte s + length px \<le> length (buf s)" by simp
  from store_pixel_in_range [OF rng]
  have buf2: "buf s2 = take (currentbyte s) (buf s) @ px @ drop (currentbyte s + B) (buf s)"
    and oob2: "oob s2 = oob s"
    by (simp_all add: s2_def s1_def B_def)
  have cb2: "currentbyte s2 = currentbyte s + B" and cp2: "currentpixel s2 = currentpixel s + 1"
    and in2: "input s2 = input s"
    by (simp_all add: s2_def s1_def store_pixel_input B_def)
  have step: "rep_chunk px pc (Suc n) s = rep_chunk px pc n s2"
    using Suc.prems(1) by (simp add: Let_def s2_def s1_def)
  have p2: "currentpixel s2 + n \<le> pc" using Suc.prems(1) by (simp add: cp2)
  from Suc.prems(2) have lcb: "currentbyte s \<le> length (buf s)" by simp
  have len2: "length (buf s2) = length (buf s)" by (simp add: s2_def s1_def)
  have p3: "currentbyte s2 + n * length px \<le> length (buf s2)"
    using Suc.prems(2) by (simp add: cb2 len2 B_def)
  from Suc.IH [OF p2 p3] obtain s' where
    r: "rep_chunk px pc n s2 = Inr s'" and
    i: "input s' = input s2" and
    b: "buf s' = take (currentbyte s2) (buf s2) @ concat (replicate n px) @
                    drop (currentbyte s2 + n * length px) (buf s2)" and
    c: "currentpixel s' = currentpixel s2 + n" "currentbyte s' = currentbyte s2 + n * length px"
       "oob s' = oob s2"
    by blast
  have tk: "take (currentbyte s + B) (buf s2) = take (currentbyte s) (buf s) @ px"
    using lcb by (simp add: buf2 B_def)
  have dr: "drop (currentbyte s + B + n * B) (buf s2) = drop (currentbyte s + B + n * B) (buf s)"
    using lcb by (simp add: buf2 ac_simps B_def)
  have "buf s' = (take (currentbyte s) (buf s) @ px) @ concat (replicate n px) @
                    drop (currentbyte s + B + n * B) (buf s)"
    unfolding b cb2 tk dr B_def [symmetric] ..
  then have "buf s' = take (currentbyte s) (buf s) @ concat (replicate (Suc n) px) @
                    drop (currentbyte s + Suc n * length px) (buf s)"
    by (simp add: add.assoc B_def)
  moreover have "input s' = input s" by (simp add: i in2)
  moreover have "currentpixel s' = currentpixel s + Suc n"
    "currentbyte s' = currentbyte s + Suc n * length px" "oob s' = oob s"
    by (simp_all add: c cb2 cp2 oob2 B_def)
  ultimately show ?case using r step by simp
qed


lemma run_pixels:
  assumes "\<forall>k<n. pixel_at d B (c + k) = px" and "(c + n) * B \<le> length d"
  shows "take (n * B) (drop (c * B) d) = concat (replicate n px)"
  using assms
proof (induction n)
  case 0
  then show ?case by simp
next
  case (Suc n)
  from Suc.prems have IH: "take (n * B) (drop (c * B) d) = concat (replicate n px)"
    by (intro Suc.IH) (simp_all add: algebra_simps)
  from Suc.prems(1) have last: "take B (drop ((c + n) * B) d) = px"
    by (simp add: pixel_at_def)
  have "take (n * B + B) (drop (c * B) d) =
        take (n * B) (drop (c * B) d) @ take B (drop (n * B) (drop (c * B) d))"
    by (rule take_add)
  also have "drop (n * B) (drop (c * B) d) = drop ((c + n) * B) d"
    by (simp add: algebra_simps)
  finally have "take (n * B + B) (drop (c * B) d) = concat (replicate n px) @ px"
    by (simp only: IH last)
  moreover have "Suc n * B = n * B + B" by simp
  moreover have "concat (replicate (Suc n) px) = concat (replicate n px @ [px])"
    by (simp add: replicate_append_same)
  then have "concat (replicate (Suc n) px) = concat (replicate n px) @ px"
    by simp
  ultimately show ?case by (simp only:)
qed

lemma rle_chunk_packet:
  assumes rl: "1 \<le> rl" "rl \<le> 128" "c + rl \<le> n"
    and len: "n * B = length d"
    and run: "\<not> raw \<longrightarrow> 2 \<le> rl \<and> (\<forall>k<rl. pixel_at d B (c + k) = pixel_at d B c)"
    and inp: "input s = take (if raw then rl * B else B) (drop (c * B) d) @ tail"
    and st: "currentpixel s = c" "currentbyte s = c * B" "length (buf s) = n * B"
  shows "\<exists>s'. rle_chunk B n (if raw then of_nat (rl - 1) else of_nat (rl + 127)) s = Inr s' \<and>
           input s' = tail \<and>
           buf s' = take (c * B) (buf s) @ take (rl * B) (drop (c * B) d) @
                    drop ((c + rl) * B) (buf s) \<and>
           currentpixel s' = c + rl \<and> currentbyte s' = (c + rl) * B \<and> oob s' = oob s"
proof -
  from rl(3) have "(c + rl) * B \<le> n * B" by (rule mult_le_mono1)
  with len have "(c + rl) * B \<le> length d" by simp
  then have fit: "c * B + rl * B \<le> length d" by (simp only: add_mult_distrib)
  from fit st have fitb: "currentbyte s + rl * B \<le> length (buf s)" by (simp add: len)
  from rl(2) have "rl < 2 ^ LENGTH(8)" by simp
  then have url: "unat (of_nat rl :: u8) = rl" by (rule of_nat_inverse [OF refl])
  show ?thesis
  proof (cases raw)
    case True
    from raw_header [OF rl(1,2)] rl(1) url have hdr: "(of_nat (rl - 1) :: u8) < 128"
      and cnt: "unat ((of_nat (rl - 1) :: u8) + 1) = rl"
      by simp_all
    from inp True fit have pl: "take (rl * B) (input s) = take (rl * B) (drop (c * B) d)"
      and tl: "drop (rl * B) (input s) = tail" and li: "rl * B \<le> length (input s)"
      by simp_all
    from st rl(3) have "currentpixel s + rl \<le> n" by simp
    from raw_chunk_ok [OF li this fitb] obtain s' where
      "raw_chunk B n rl s = Inr s'" "input s' = drop (rl * B) (input s)"
      "buf s' = take (currentbyte s) (buf s) @ take (rl * B) (input s) @
                    drop (currentbyte s + rl * B) (buf s)"
      "currentpixel s' = currentpixel s + rl" "currentbyte s' = currentbyte s + rl * B"
      "oob s' = oob s"
      by blast
    with True hdr cnt pl tl st show ?thesis
      by (simp add: rle_chunk_def add_mult_distrib)
  next
    case False
    with run have rl2: "2 \<le> rl" and all: "\<forall>k<rl. pixel_at d B (c + k) = pixel_at d B c"
      by simp_all
    from rep_header(2) [OF rl2 rl(2)] rl2 have "\<not> unat (of_nat (rl + 127) :: u8) < 128"
      by simp
    then have hdr: "\<not> (of_nat (rl + 127) :: u8) < 128" by (simp add: word_less_nat_alt)
    from url have cnt: "unat ((of_nat (rl + 127) :: u8) - 127) = rl" by simp
    from rl(1) have "B \<le> rl * B" by (cases rl) simp_all
    with fit have one: "c * B + B \<le> length d" by linarith
    then have lp: "length (pixel_at d B c) = B" by (simp add: pixel_at_def)
    from inp False have inp': "input s = pixel_at d B c @ tail" by (simp add: pixel_at_def)
    with lp have px: "take B (input s) = pixel_at d B c" and tl: "drop B (input s) = tail"
      and li: "\<not> length (input s) < B"
      by simp_all
    define s0 where "s0 = s\<lparr>input := drop B (input s)\<rparr>"
    have s0: "currentpixel s0 + rl \<le> n"
      "currentbyte s0 + rl * length (pixel_at d B c) \<le> length (buf s0)"
      using st rl(3) fitb lp by (simp_all add: s0_def)
    from rep_chunk_ok [OF s0] obtain s' where
      "rep_chunk (pixel_at d B c) n rl s0 = Inr s'" "input s' = input s0"
      "buf s' = take (currentbyte s0) (buf s0) @ concat (replicate rl (pixel_at d B c)) @
                    drop (currentbyte s0 + rl * length (pixel_at d B c)) (buf s0)"
      "currentpixel s' = currentpixel s0 + rl"
      "currentbyte s' = currentbyte s0 + rl * length (pixel_at d B c)" "oob s' = oob s0"
      by blast
    moreover from fit have "(c + rl) * B \<le> length d" by (simp only: add_mult_distrib)
    from run_pixels [OF all this]
    have "take (rl * B) (drop (c * B) d) = concat (replicate rl (pixel_at d B c))" .
    ultimately show ?thesis using False hdr cnt px tl li st lp
      by (simp add: rle_chunk_def s0_def add_mult_distrib)
  qed
qed


lemma load_rle_loop_unload:
  assumes "n * B = length d" "c < n"
    and "input s = concat (map (\<lambda>(hdr, payload). hdr # payload) (unload_rle_packets d B n c)) @ rest"
    and "currentpixel s = c" "currentbyte s = c * B" "length (buf s) = n * B"
    and "take (c * B) (buf s) = take (c * B) d"
  shows "\<exists>s'. load_rle_loop B n s = Inr s' \<and> input s' = rest \<and> buf s' = d \<and>
           currentpixel s' = n \<and> currentbyte s' = n * B \<and> oob s' = oob s"
  using assms
proof (induction d B n c arbitrary: s rule: unload_rle_packets.induct)
  case (1 d B npixels curpix)
  obtain rl raw where scan: "rle_scan d B npixels curpix (curpix * B) 1 True = (rl, raw)"
    by (cases "rle_scan d B npixels curpix (curpix * B) 1 True")
  from "1.prems"(1) have le: "npixels * B \<le> length d" by simp
  from rle_scan_start [OF scan "1.prems"(2) le]
  have b: "1 \<le> rl" "rl \<le> 128" "curpix + rl \<le> npixels"
    and run: "\<not> raw \<longrightarrow> 2 \<le> rl \<and> (\<forall>k<rl. pixel_at d B (curpix + k) = pixel_at d B curpix)"
    by simp_all
  define hdr :: u8 where "hdr = (if raw then of_nat (rl - 1) else of_nat (rl + 127))"
  define payload where "payload = take (if raw then rl * B else B) (drop (curpix * B) d)"
  define more where "more = concat (map (\<lambda>(hdr, payload). hdr # payload)
      (unload_rle_packets d B npixels (curpix + rl)))"
  have pk: "unload_rle_packets d B npixels curpix =
      (hdr, payload) # unload_rle_packets d B npixels (curpix + rl)"
    using "1.prems"(2) scan
    by (subst unload_rle_packets.simps) (simp add: hdr_def payload_def)
  with "1.prems"(3) have inp: "input s = hdr # (payload @ more @ rest)"
    by (simp add: more_def)
  define s0 where "s0 = s\<lparr>input := payload @ more @ rest\<rparr>"
  have s0: "input s0 = take (if raw then rl * B else B) (drop (curpix * B) d) @ (more @ rest)"
    "currentpixel s0 = curpix" "currentbyte s0 = curpix * B" "length (buf s0) = npixels * B"
    using "1.prems"(4,5,6) by (simp_all add: s0_def payload_def)
  from rle_chunk_packet [OF b "1.prems"(1) run s0] obtain s1 where
    ch: "rle_chunk B npixels hdr s0 = Inr s1" and
    i1: "input s1 = more @ rest" and
    b1: "buf s1 = take (curpix * B) (buf s0) @ take (rl * B) (drop (curpix * B) d) @
                    drop ((curpix + rl) * B) (buf s0)" and
    c1: "currentpixel s1 = curpix + rl" "currentbyte s1 = (curpix + rl) * B" "oob s1 = oob s0"
    unfolding hdr_def by blast
  have loop: "load_rle_loop B npixels s =
      (if currentpixel s1 < npixels then load_rle_loop B npixels s1 else Inr s1)"
    using inp ch by (subst load_rle_loop.simps) (simp add: s0_def)
  have "(curpix + rl) * B \<le> npixels * B" using b(3) by (rule mult_le_mono1)
  then have fit: "curpix * B + rl * B \<le> length (buf s)"
    by (simp only: add_mult_distrib "1.prems"(6))
  have pre: "take ((curpix + rl) * B) (buf s1) = take ((curpix + rl) * B) d"
  proof -
    have "take (curpix * B + rl * B) (buf s1) =
        take (curpix * B) (buf s) @ take (rl * B) (drop (curpix * B) d)"
      using fit "1.prems"(1,6) by (simp add: b1 s0_def)
    also have "\<dots> = take (curpix * B + rl * B) d"
      by (simp only: "1.prems"(7) take_add)
    finally show ?thesis by (simp only: add_mult_distrib)
  qed
  have l1: "length (buf s1) = npixels * B"
    using rle_chunk_length [OF ch] by (simp add: s0_def "1.prems"(6))
  show ?case
  proof (cases "curpix + rl < npixels")
    case True
    have in1: "input s1 = concat (map (\<lambda>(hdr, payload). hdr # payload)
        (unload_rle_packets d B npixels (curpix + rl))) @ rest"
      using i1 by (simp add: more_def)
    from "1.IH" [OF "1.prems"(2) scan [symmetric] "1.prems"(1) True in1 c1(1,2) l1 pre]
    obtain s' where "load_rle_loop B npixels s1 = Inr s'" "input s' = rest" "buf s' = d"
      "currentpixel s' = npixels" "currentbyte s' = npixels * B" "oob s' = oob s1"
      by auto
    with loop True c1 show ?thesis by (simp add: s0_def)
  next
    case False
    with b(3) have e: "curpix + rl = npixels" by simp
    have "unload_rle_packets d B npixels npixels = []"
      by (subst unload_rle_packets.simps) simp
    with e have "more = []" by (simp add: more_def)
    moreover from pre l1 "1.prems"(1) e have "buf s1 = d" by simp
    ultimately show ?thesis using loop False c1 i1 e by (simp add: s0_def)
  qed
qed

section \<open>Writing a file and reading it back\<close>

text \<open>The 18 header bytes decode to the header they were made from.\<close>

lemma u16_of_bytes_u16_bytes:
  "u16_of_bytes (ucast x) (ucast (drop_bit 8 x)) = x"
  unfolding u16_of_bytes_def
  by (rule bit_word_eqI) (auto simp add: bit_simps)

lemma length_header_bytes [simp]: "length (header_bytes hdr) = 18"
  by (simp add: header_bytes_def u16_bytes_def)

lemma parse_header_bytes: "parse_header (header_bytes hdr) = hdr"
  by (cases hdr) (simp add: header_bytes_def u16_bytes_def parse_header_def u16_of_bytes_u16_bytes)

lemma read_tga_file_bytes:
  "read_tga_file (header_bytes hdr @ ins) =
     (if uint (width hdr) \<le> 0 \<or> uint (height hdr) \<le> 0 \<or>
         (drop_bit 3 (bitsperpixel hdr) \<noteq> 1 \<and> drop_bit 3 (bitsperpixel hdr) \<noteq> 3 \<and>
          drop_bit 3 (bitsperpixel hdr) \<noteq> 4)
      then Inl InvalidDimensions
      else if int32 (int32 (uint (width hdr) * uint (height hdr)) *
                     uint (drop_bit 3 (bitsperpixel hdr))) < 0
      then Inl AllocFailure
      else (case read_pixel_data hdr
                  \<lparr>w = uint (width hdr), h = uint (height hdr), bpp = drop_bit 3 (bitsperpixel hdr),
                   data = replicate (nat (int32 (int32 (uint (width hdr) * uint (height hdr)) *
                                                 uint (drop_bit 3 (bitsperpixel hdr))))) 0\<rparr> ins
            of Inl e \<Rightarrow> Inl e | Inr img \<Rightarrow> Inr (normalize_origin hdr img)))"
  by (simp add: read_tga_file_def Let_def parse_header_bytes)


lemma load_rle_data_unload:
  assumes "buffer_inv img" "0 < w img" "0 < h img" "length b0 = length (data img)"
  shows "\<exists>s'. load_rle_data (img\<lparr>data := b0\<rparr>) (unload_rle_data img @ rest) = Inr s' \<and>
           input s' = rest \<and> buf s' = data img \<and> currentpixel s' = nat (w img * h img) \<and>
           currentbyte s' = length (data img) \<and> oob s' = []"
proof -
  define n where "n = nat (w img * h img)"
  define B where "B = unat (bpp img)"
  from assms(2,3) have "0 < w img * h img" by simp
  then have n0: "0 < n" and ni: "int n = w img * h img" by (simp_all add: n_def)
  from assms(1) have "int (length (data img)) = int (n * B)"
    by (simp add: buffer_inv_def B_def ni)
  then have len: "n * B = length (data img)" by (simp only: of_nat_eq_iff)
  define s where "s = \<lparr>input = unload_rle_data img @ rest, buf = b0, currentpixel = 0,
      currentbyte = 0, oob = []\<rparr>"
  have p3: "input s = concat (map (\<lambda>(hdr, payload). hdr # payload)
      (unload_rle_packets (data img) B n 0)) @ rest"
    by (simp add: s_def unload_rle_data_def n_def B_def)
  have p4: "currentpixel s = 0" and p5: "currentbyte s = 0 * B" by (simp_all add: s_def)
  have p6: "length (buf s) = n * B" using assms(4) len by (simp add: s_def)
  have p7: "take (0 * B) (buf s) = take (0 * B) (data img)" by simp
  from load_rle_loop_unload [OF len n0 p3 p4 p5 p6 p7] obtain s' where
    "load_rle_loop B n s = Inr s'" "input s' = rest" "buf s' = data img"
    "currentpixel s' = n" "currentbyte s' = n * B" "oob s' = oob s"
    by blast
  then show ?thesis
    by (simp add: load_rle_data_def s_def n_def B_def len [unfolded n_def B_def])
qed

lemma write_tga_file_read:
  assumes v: "valid_image img" and bw: "w img \<le> 65535" "h img \<le> 65535"
    and ok: "int_ok (w img * h img * uint (bpp img))"
  shows "\<exists>file. write_tga_file img vflip rle = Inr file \<and>
           read_tga_file file = Inr (if vflip then flip_vertically img else img)"
proof -
  from v have pos: "0 < w img" "0 < h img" and fmt: "bpp img = 1 \<or> bpp img = 3 \<or> bpp img = 4"
    and inv: "buffer_inv img"
    by (simp_all add: valid_image_def)
  from fmt have b1: "1 \<le> uint (bpp img)" by auto
  from pos have whpos: "0 < w img * h img" by simp
  with b1 have "w img * h img * 1 \<le> w img * h img * uint (bpp img)"
    by (intro mult_left_mono) simp_all
  with ok whpos have okwh: "int_ok (w img * h img)" by (simp add: int_ok_def)
  define hdr where "hdr =
     \<lparr>idlength = 0, colormaptype = 0,
      datatypecode = (if bpp img = 1 then (if rle then 11 else 3) else (if rle then 10 else 2)),
      colormaporigin = 0, colormaplength = 0, colormapdepth = 0,
      x_origin = 0, y_origin = 0,
      width = word_of_int (w img), height = word_of_int (h img),
      bitsperpixel = push_bit 3 (bpp img),
      imagedescriptor = (if vflip then 0x00 else 0x20)\<rparr>"
  define px where "px = (if \<not> rle then take (nat (w img * h img * uint (bpp img))) (data img)
                    else unload_rle_data img)"
  define tail where "tail = developer_area_ref @ extension_area_ref @ footer"
  have wr: "write_tga_file img vflip rle = Inr (header_bytes hdr @ px @ tail)"
    using ok okwh by (simp add: write_tga_file_def hdr_def px_def tail_def)
  from pos bw have hw: "uint (width hdr) = w img" and hh: "uint (height hdr) = h img"
    by (simp_all add: hdr_def uint_word_of_int take_bit_int_eq_self)
  from fmt have hb: "drop_bit 3 (bitsperpixel hdr) = bpp img"
    by (auto simp add: hdr_def)
  from inv whpos b1 have len: "nat (w img * h img * uint (bpp img)) = length (data img)"
    by (simp add: buffer_inv_def)
  define img0 where "img0 = \<lparr>w = w img, h = h img, bpp = bpp img,
      data = replicate (nat (w img * h img * uint (bpp img))) 0\<rparr>"
  have i0: "img0 = img\<lparr>data := replicate (length (data img)) 0\<rparr>"
    by (simp add: img0_def len)
  have rd: "read_pixel_data hdr img0 (px @ tail) = Inr img"
  proof (cases rle)
    case False
    then have "3 = datatypecode hdr \<or> 2 = datatypecode hdr" by (simp add: hdr_def)
    moreover from False len have "px = data img" by (simp add: px_def)
    ultimately show ?thesis by (simp add: read_pixel_data_def i0)
  next
    case True
    then have d1: "\<not> (3 = datatypecode hdr \<or> 2 = datatypecode hdr)"
      and d2: "10 = datatypecode hdr \<or> 11 = datatypecode hdr"
      by (simp_all add: hdr_def)
    from True have "px = unload_rle_data img" by (simp add: px_def)
    with load_rle_data_unload [OF inv pos, of "replicate (length (data img)) 0" tail]
    obtain s' where "load_rle_data img0 (px @ tail) = Inr s'" "buf s' = data img"
      by (auto simp add: i0)
    with d1 d2 show ?thesis by (simp add: read_pixel_data_def i0)
  qed
  have no: "normalize_origin hdr img = (if vflip then flip_vertically img else img)"
    by (simp add: normalize_origin_def hdr_def)
  from pos b1 have "0 \<le> w img * h img * uint (bpp img)"
    by (intro mult_nonneg_nonneg) simp_all
  then have nn: "\<not> w img * h img * uint (bpp img) < 0" by simp
  from pos fmt nn have "read_tga_file (header_bytes hdr @ px @ tail) =
      Inr (if vflip then flip_vertically img else img)"
    unfolding read_tga_file_bytes hw hh hb int32_product [OF ok]
    by (simp add: rd [unfolded img0_def] no del: replicate_eq_replicate)
  with wr show ?thesis by simp
qed


lemma u16_wraps: "(65536 :: u16) = 0"
  by simp

text \<open>
  Claim C2, as the code has it. For every valid image state (any pixel contents,
  \<open>0 < w \<le> 65535\<close>, \<open>0 < h \<le> 65535\<close>, \<^verbatim>\<open>bpp\<close> one of 1, 3, 4, a buffer of
  \<^verbatim>\<open>w*h*bpp\<close> bytes, a product that fits \<^verbatim>\<open>int\<close>), \<^verbatim>\<open>write(path, vflip, rle=false)\<close>
  produces a file, and \<^verbatim>\<open>read\<close> of that file succeeds with the same \<^verbatim>\<open>w\<close>, \<^verbatim>\<open>h\<close>
  and \<^verbatim>\<open>bpp\<close>. With \<^verbatim>\<open>vflip=true\<close> the buffer read back is \<^verbatim>\<open>flip_vertically\<close> of the
  original (a second \<^verbatim>\<open>flip_vertically\<close> restores the original); with \<^verbatim>\<open>vflip=false\<close> it
  is the original, byte for byte.
\<close>

theorem write_read_raw:
  assumes "valid_image img" and "w img \<le> 65535" and "h img \<le> 65535"
    and "int_ok (w img * h img * uint (bpp img))"
  shows "\<exists>file img'. write_tga_file img vflip False = Inr file \<and> read_tga_file file = Inr img' \<and>
           img' = (if vflip then flip_vertically img else img) \<and>
           (vflip \<longrightarrow> flip_vertically img' = img)"
proof -
  from assms(1) have inv: "buffer_inv img" and pos: "0 < w img" "0 < h img"
    by (simp_all add: valid_image_def)
  from write_tga_file_read [OF assms(1-4), of vflip False] flip_vertically_twice [OF inv]
  show "\<exists>file img'. write_tga_file img vflip False = Inr file \<and> read_tga_file file = Inr img' \<and>
           img' = (if vflip then flip_vertically img else img) \<and>
           (vflip \<longrightarrow> flip_vertically img' = img)"
    by auto
qed

theorem write_read_raw_witness:
  "valid_image \<lparr>w = 1, h = 2, bpp = 1, data = [1, 2]\<rparr> \<and>
   int_ok (w \<lparr>w = 1, h = 2, bpp = 1, data = [1, 2]\<rparr> * h \<lparr>w = 1, h = 2, bpp = 1, data = [1, 2]\<rparr> *
           uint (bpp \<lparr>w = 1, h = 2, bpp = 1, data = [1, 2]\<rparr>)) \<and>
   (\<exists>file. write_tga_file \<lparr>w = 1, h = 2, bpp = 1, data = [1, 2]\<rparr> True False = Inr file \<and>
      read_tga_file file = Inr \<lparr>w = 1, h = 2, bpp = 1, data = [2, 1]\<rparr>) \<and>
   (\<exists>file. write_tga_file \<lparr>w = 1, h = 2, bpp = 1, data = [1, 2]\<rparr> False False = Inr file \<and>
      read_tga_file file = Inr \<lparr>w = 1, h = 2, bpp = 1, data = [1, 2]\<rparr>)"
proof -
  have v: "valid_image \<lparr>w = 1, h = 2, bpp = 1, data = [1, 2]\<rparr>"
    by (simp add: valid_image_def buffer_inv_def)
  have bw: "w \<lparr>w = 1, h = 2, bpp = 1, data = [1, 2]\<rparr> \<le> 65535"
    and bh: "h \<lparr>w = 1, h = 2, bpp = 1, data = [1, 2]\<rparr> \<le> 65535"
    by simp_all
  have ok: "int_ok (w \<lparr>w = 1, h = 2, bpp = 1, data = [1, 2]\<rparr> * h \<lparr>w = 1, h = 2, bpp = 1, data = [1, 2]\<rparr> *
           uint (bpp \<lparr>w = 1, h = 2, bpp = 1, data = [1, 2]\<rparr>))"
    by (simp add: int_ok_def)
  have fv: "flip_vertically \<lparr>w = 1, h = 2, bpp = 1, data = [1, 2]\<rparr>
      = \<lparr>w = 1, h = 2, bpp = 1, data = [2, 1]\<rparr>"
    by code_simp
  from write_read_raw [OF v bw bh ok, of True] write_read_raw [OF v bw bh ok, of False] v ok fv
  show ?thesis by auto
qed

text \<open>
  Claim C2 as stated fails. A 1x2 grayscale image with the rows \<open>[1]\<close> and \<open>[2]\<close>, written
  raw with \<^verbatim>\<open>vflip=true\<close>, is read back with the rows exchanged: the writer only records
  the bottom-left origin in the image descriptor, and the reader flips an image whose descriptor
  lacks the top-left bit. A 65536x1 image is written with the width field 0 (the header field
  has 16 bits) and the file is rejected by \<^verbatim>\<open>read\<close>. For a 65535x65535 image the product
  \<^verbatim>\<open>w*h\<close> does not fit \<^verbatim>\<open>int\<close>: the source has no defined behaviour there.
\<close>

theorem write_read_raw_counterexample:
  "valid_image \<lparr>w = 1, h = 2, bpp = 1, data = [1, 2]\<rparr> \<and>
   write_tga_file \<lparr>w = 1, h = 2, bpp = 1, data = [1, 2]\<rparr> True False =
     Inr [0, 0, 3, 0, 0, 0, 0, 0, 0, 0, 0, 0, 1, 0, 2, 0, 8, 0, 1, 2, 0, 0, 0, 0, 0, 0, 0, 0,
          84, 82, 85, 69, 86, 73, 83, 73, 79, 78, 45, 88, 70, 73, 76, 69, 46, 0] \<and>
   read_tga_file [0, 0, 3, 0, 0, 0, 0, 0, 0, 0, 0, 0, 1, 0, 2, 0, 8, 0, 1, 2, 0, 0, 0, 0, 0, 0, 0, 0,
                  84, 82, 85, 69, 86, 73, 83, 73, 79, 78, 45, 88, 70, 73, 76, 69, 46, 0] =
     Inr \<lparr>w = 1, h = 2, bpp = 1, data = [2, 1]\<rparr> \<and>
   data \<lparr>w = 1, h = 2, bpp = 1, data = [2, 1]\<rparr> \<noteq> data \<lparr>w = 1, h = 2, bpp = 1, data = [1, 2]\<rparr> \<and>
   valid_image \<lparr>w = 65536, h = 1, bpp = 1, data = replicate 65536 0\<rparr> \<and>
   write_tga_file \<lparr>w = 65536, h = 1, bpp = 1, data = replicate 65536 0\<rparr> True False =
     Inr (header_bytes
            \<lparr>idlength = 0, colormaptype = 0, datatypecode = 3, colormaporigin = 0,
             colormaplength = 0, colormapdepth = 0, x_origin = 0, y_origin = 0, width = 0,
             height = 1, bitsperpixel = 8, imagedescriptor = 0\<rparr> @
          replicate 65536 0 @
          developer_area_ref @ extension_area_ref @ footer) \<and>
   read_tga_file
     (header_bytes
        \<lparr>idlength = 0, colormaptype = 0, datatypecode = 3, colormaporigin = 0,
         colormaplength = 0, colormapdepth = 0, x_origin = 0, y_origin = 0, width = 0,
         height = 1, bitsperpixel = 8, imagedescriptor = 0\<rparr> @
      replicate 65536 0 @
      developer_area_ref @ extension_area_ref @ footer) = Inl InvalidDimensions \<and>
   valid_image \<lparr>w = 65535, h = 65535, bpp = 1, data = replicate 4294836225 0\<rparr> \<and>
   write_tga_file \<lparr>w = 65535, h = 65535, bpp = 1, data = replicate 4294836225 0\<rparr> True False =
     Inl SignedOverflow"
proof (intro conjI)
  show "valid_image \<lparr>w = 1, h = 2, bpp = 1, data = [1, 2]\<rparr>"
    by (simp add: valid_image_def buffer_inv_def)
  show "write_tga_file \<lparr>w = 1, h = 2, bpp = 1, data = [1, 2]\<rparr> True False =
     Inr [0, 0, 3, 0, 0, 0, 0, 0, 0, 0, 0, 0, 1, 0, 2, 0, 8, 0, 1, 2, 0, 0, 0, 0, 0, 0, 0, 0,
          84, 82, 85, 69, 86, 73, 83, 73, 79, 78, 45, 88, 70, 73, 76, 69, 46, 0]"
    by code_simp
  show "read_tga_file [0, 0, 3, 0, 0, 0, 0, 0, 0, 0, 0, 0, 1, 0, 2, 0, 8, 0, 1, 2, 0, 0, 0, 0, 0, 0, 0, 0,
                  84, 82, 85, 69, 86, 73, 83, 73, 79, 78, 45, 88, 70, 73, 76, 69, 46, 0] =
     Inr \<lparr>w = 1, h = 2, bpp = 1, data = [2, 1]\<rparr>"
    by code_simp
  show "data \<lparr>w = 1, h = 2, bpp = 1, data = [2, 1]\<rparr> \<noteq> data \<lparr>w = 1, h = 2, bpp = 1, data = [1, 2]\<rparr>"
    by simp
  show "valid_image \<lparr>w = 65536, h = 1, bpp = 1, data = replicate 65536 0\<rparr>"
    by (simp add: valid_image_def buffer_inv_def)
  show "write_tga_file \<lparr>w = 65536, h = 1, bpp = 1, data = replicate 65536 0\<rparr> True False =
     Inr (header_bytes
            \<lparr>idlength = 0, colormaptype = 0, datatypecode = 3, colormaporigin = 0,
             colormaplength = 0, colormapdepth = 0, x_origin = 0, y_origin = 0, width = 0,
             height = 1, bitsperpixel = 8, imagedescriptor = 0\<rparr> @
          replicate 65536 0 @
          developer_area_ref @ extension_area_ref @ footer)"
    by (simp add: write_tga_file_def int_ok_def u16_wraps)
  show "read_tga_file
     (header_bytes
        \<lparr>idlength = 0, colormaptype = 0, datatypecode = 3, colormaporigin = 0,
         colormaplength = 0, colormapdepth = 0, x_origin = 0, y_origin = 0, width = 0,
         height = 1, bitsperpixel = 8, imagedescriptor = 0\<rparr> @
      replicate 65536 0 @
      developer_area_ref @ extension_area_ref @ footer) = Inl InvalidDimensions"
    by (simp add: read_tga_file_bytes)
  show "valid_image \<lparr>w = 65535, h = 65535, bpp = 1, data = replicate 4294836225 0\<rparr>"
    by (simp add: valid_image_def buffer_inv_def)
  show "write_tga_file \<lparr>w = 65535, h = 65535, bpp = 1, data = replicate 4294836225 0\<rparr> True False =
     Inl SignedOverflow"
    by (simp add: write_tga_file_def int_ok_def)
qed

text \<open>
  Claim C1, as the code has it. For every valid image state (\<open>0 < w \<le> 65535\<close>,
  \<open>0 < h \<le> 65535\<close>, \<^verbatim>\<open>bpp\<close> one of 1, 3, 4, a buffer of \<^verbatim>\<open>w*h*bpp\<close> bytes, a product
  that fits \<^verbatim>\<open>int\<close>), \<^verbatim>\<open>write(path, vflip, rle=true)\<close> produces a file, and \<^verbatim>\<open>read\<close>
  of that file succeeds with the same \<^verbatim>\<open>w\<close>, \<^verbatim>\<open>h\<close> and \<^verbatim>\<open>bpp\<close>. With
  \<^verbatim>\<open>vflip=true\<close> the buffer read back is \<^verbatim>\<open>flip_vertically\<close> of the original (a second
  \<^verbatim>\<open>flip_vertically\<close> restores the original); with \<^verbatim>\<open>vflip=false\<close> it is the original,
  byte for byte. The RLE decoder, run on the output of the RLE encoder followed by any further
  bytes and starting from any buffer of the right length, succeeds, leaves exactly the further
  bytes unread, stores nothing outside the buffer and fills it with the original pixel content.
\<close>

theorem write_read_rle:
  assumes "valid_image img" and "w img \<le> 65535" and "h img \<le> 65535"
    and "int_ok (w img * h img * uint (bpp img))"
  shows "(\<exists>file img'. write_tga_file img vflip True = Inr file \<and> read_tga_file file = Inr img' \<and>
            img' = (if vflip then flip_vertically img else img) \<and>
            (vflip \<longrightarrow> flip_vertically img' = img)) \<and>
         (\<forall>b0 rest. length b0 = length (data img) \<longrightarrow>
            (\<exists>s. load_rle_data (img\<lparr>data := b0\<rparr>) (unload_rle_data img @ rest) = Inr s \<and>
                 buf s = data img \<and> input s = rest \<and> oob s = []))"
proof (intro conjI allI impI)
  from assms(1) have inv: "buffer_inv img" and pos: "0 < w img" "0 < h img"
    by (simp_all add: valid_image_def)
  from write_tga_file_read [OF assms(1-4), of vflip True] flip_vertically_twice [OF inv]
  show "\<exists>file img'. write_tga_file img vflip True = Inr file \<and> read_tga_file file = Inr img' \<and>
           img' = (if vflip then flip_vertically img else img) \<and>
           (vflip \<longrightarrow> flip_vertically img' = img)"
    by auto
  show "\<exists>s. load_rle_data (img\<lparr>data := b0\<rparr>) (unload_rle_data img @ rest) = Inr s \<and>
             buf s = data img \<and> input s = rest \<and> oob s = []"
    if "length b0 = length (data img)" for b0 rest
    using load_rle_data_unload [OF inv pos that, of rest] by auto
qed

theorem write_read_rle_witness:
  "valid_image \<lparr>w = 1, h = 2, bpp = 1, data = [1, 2]\<rparr> \<and>
   int_ok (w \<lparr>w = 1, h = 2, bpp = 1, data = [1, 2]\<rparr> * h \<lparr>w = 1, h = 2, bpp = 1, data = [1, 2]\<rparr> *
           uint (bpp \<lparr>w = 1, h = 2, bpp = 1, data = [1, 2]\<rparr>)) \<and>
   (\<exists>file. write_tga_file \<lparr>w = 1, h = 2, bpp = 1, data = [1, 2]\<rparr> True True = Inr file \<and>
      read_tga_file file = Inr \<lparr>w = 1, h = 2, bpp = 1, data = [2, 1]\<rparr>) \<and>
   (\<exists>file. write_tga_file \<lparr>w = 1, h = 2, bpp = 1, data = [1, 2]\<rparr> False True = Inr file \<and>
      read_tga_file file = Inr \<lparr>w = 1, h = 2, bpp = 1, data = [1, 2]\<rparr>) \<and>
   unload_rle_data \<lparr>w = 1, h = 2, bpp = 1, data = [1, 2]\<rparr> = [1, 1, 2] \<and>
   (\<exists>s. load_rle_data \<lparr>w = 1, h = 2, bpp = 1, data = [0, 0]\<rparr> ([1, 1, 2] @ [9]) = Inr s \<and>
        buf s = [1, 2] \<and> input s = [9] \<and> oob s = [])"
proof -
  have v: "valid_image \<lparr>w = 1, h = 2, bpp = 1, data = [1, 2]\<rparr>"
    by (simp add: valid_image_def buffer_inv_def)
  have bw: "w \<lparr>w = 1, h = 2, bpp = 1, data = [1, 2]\<rparr> \<le> 65535"
    and bh: "h \<lparr>w = 1, h = 2, bpp = 1, data = [1, 2]\<rparr> \<le> 65535"
    by simp_all
  have ok: "int_ok (w \<lparr>w = 1, h = 2, bpp = 1, data = [1, 2]\<rparr> * h \<lparr>w = 1, h = 2, bpp = 1, data = [1, 2]\<rparr> *
           uint (bpp \<lparr>w = 1, h = 2, bpp = 1, data = [1, 2]\<rparr>))"
    by (simp add: int_ok_def)
  have fv: "flip_vertically \<lparr>w = 1, h = 2, bpp = 1, data = [1, 2]\<rparr>
      = \<lparr>w = 1, h = 2, bpp = 1, data = [2, 1]\<rparr>"
    by code_simp
  have ul: "unload_rle_data \<lparr>w = 1, h = 2, bpp = 1, data = [1, 2]\<rparr> = [1, 1, 2]"
    by code_simp
  note t1 = write_read_rle [OF v bw bh ok, of True]
  note t2 = write_read_rle [OF v bw bh ok, of False]
  from t1 have "\<exists>file. write_tga_file \<lparr>w = 1, h = 2, bpp = 1, data = [1, 2]\<rparr> True True = Inr file \<and>
      read_tga_file file = Inr \<lparr>w = 1, h = 2, bpp = 1, data = [2, 1]\<rparr>"
    using fv by auto
  moreover from t2 have "\<exists>file. write_tga_file \<lparr>w = 1, h = 2, bpp = 1, data = [1, 2]\<rparr> False True = Inr file \<and>
      read_tga_file file = Inr \<lparr>w = 1, h = 2, bpp = 1, data = [1, 2]\<rparr>"
    by auto
  moreover from t1 have "length [0, 0 :: u8] = length (data \<lparr>w = 1, h = 2, bpp = 1, data = [1, 2]\<rparr>) \<longrightarrow>
      (\<exists>s. load_rle_data (\<lparr>w = 1, h = 2, bpp = 1, data = [1, 2]\<rparr>\<lparr>data := [0, 0]\<rparr>)
             (unload_rle_data \<lparr>w = 1, h = 2, bpp = 1, data = [1, 2]\<rparr> @ [9]) = Inr s \<and>
           buf s = data \<lparr>w = 1, h = 2, bpp = 1, data = [1, 2]\<rparr> \<and> input s = [9] \<and> oob s = [])"
    by blast
  then have "\<exists>s. load_rle_data \<lparr>w = 1, h = 2, bpp = 1, data = [0, 0]\<rparr> ([1, 1, 2] @ [9]) = Inr s \<and>
        buf s = [1, 2] \<and> input s = [9] \<and> oob s = []"
    by (simp add: ul)
  ultimately show ?thesis using v ok ul by blast
qed

text \<open>
  Claim C1 as stated fails. A 1x2 grayscale image with the rows \<open>[1]\<close> and \<open>[2]\<close>, written
  with RLE and \<^verbatim>\<open>vflip=true\<close>, is read back with the rows exchanged; a 65536x1 image is
  written with the width field 0 and the file is rejected by \<^verbatim>\<open>read\<close>; for a 65535x65535
  image the product \<^verbatim>\<open>w*h\<close> does not fit \<^verbatim>\<open>int\<close>.
\<close>

theorem write_read_rle_counterexample:
  "valid_image \<lparr>w = 1, h = 2, bpp = 1, data = [1, 2]\<rparr> \<and>
   write_tga_file \<lparr>w = 1, h = 2, bpp = 1, data = [1, 2]\<rparr> True True =
     Inr [0, 0, 11, 0, 0, 0, 0, 0, 0, 0, 0, 0, 1, 0, 2, 0, 8, 0, 1, 1, 2, 0, 0, 0, 0, 0, 0, 0, 0,
          84, 82, 85, 69, 86, 73, 83, 73, 79, 78, 45, 88, 70, 73, 76, 69, 46, 0] \<and>
   read_tga_file [0, 0, 11, 0, 0, 0, 0, 0, 0, 0, 0, 0, 1, 0, 2, 0, 8, 0, 1, 1, 2, 0, 0, 0, 0, 0, 0, 0, 0,
                  84, 82, 85, 69, 86, 73, 83, 73, 79, 78, 45, 88, 70, 73, 76, 69, 46, 0] =
     Inr \<lparr>w = 1, h = 2, bpp = 1, data = [2, 1]\<rparr> \<and>
   data \<lparr>w = 1, h = 2, bpp = 1, data = [2, 1]\<rparr> \<noteq> data \<lparr>w = 1, h = 2, bpp = 1, data = [1, 2]\<rparr> \<and>
   valid_image \<lparr>w = 65536, h = 1, bpp = 1, data = replicate 65536 0\<rparr> \<and>
   write_tga_file \<lparr>w = 65536, h = 1, bpp = 1, data = replicate 65536 0\<rparr> True True =
     Inr (header_bytes
            \<lparr>idlength = 0, colormaptype = 0, datatypecode = 11, colormaporigin = 0,
             colormaplength = 0, colormapdepth = 0, x_origin = 0, y_origin = 0, width = 0,
             height = 1, bitsperpixel = 8, imagedescriptor = 0\<rparr> @
          unload_rle_data \<lparr>w = 65536, h = 1, bpp = 1, data = replicate 65536 0\<rparr> @
          developer_area_ref @ extension_area_ref @ footer) \<and>
   read_tga_file
     (header_bytes
        \<lparr>idlength = 0, colormaptype = 0, datatypecode = 11, colormaporigin = 0,
         colormaplength = 0, colormapdepth = 0, x_origin = 0, y_origin = 0, width = 0,
         height = 1, bitsperpixel = 8, imagedescriptor = 0\<rparr> @
      unload_rle_data \<lparr>w = 65536, h = 1, bpp = 1, data = replicate 65536 0\<rparr> @
      developer_area_ref @ extension_area_ref @ footer) = Inl InvalidDimensions \<and>
   valid_image \<lparr>w = 65535, h = 65535, bpp = 1, data = replicate 4294836225 0\<rparr> \<and>
   write_tga_file \<lparr>w = 65535, h = 65535, bpp = 1, data = replicate 4294836225 0\<rparr> True True =
     Inl SignedOverflow"
proof (intro conjI)
  show "valid_image \<lparr>w = 1, h = 2, bpp = 1, data = [1, 2]\<rparr>"
    by (simp add: valid_image_def buffer_inv_def)
  show "write_tga_file \<lparr>w = 1, h = 2, bpp = 1, data = [1, 2]\<rparr> True True =
     Inr [0, 0, 11, 0, 0, 0, 0, 0, 0, 0, 0, 0, 1, 0, 2, 0, 8, 0, 1, 1, 2, 0, 0, 0, 0, 0, 0, 0, 0,
          84, 82, 85, 69, 86, 73, 83, 73, 79, 78, 45, 88, 70, 73, 76, 69, 46, 0]"
    by code_simp
  show "read_tga_file [0, 0, 11, 0, 0, 0, 0, 0, 0, 0, 0, 0, 1, 0, 2, 0, 8, 0, 1, 1, 2, 0, 0, 0, 0, 0, 0, 0, 0,
                  84, 82, 85, 69, 86, 73, 83, 73, 79, 78, 45, 88, 70, 73, 76, 69, 46, 0] =
     Inr \<lparr>w = 1, h = 2, bpp = 1, data = [2, 1]\<rparr>"
    by code_simp
  show "data \<lparr>w = 1, h = 2, bpp = 1, data = [2, 1]\<rparr> \<noteq> data \<lparr>w = 1, h = 2, bpp = 1, data = [1, 2]\<rparr>"
    by simp
  show "valid_image \<lparr>w = 65536, h = 1, bpp = 1, data = replicate 65536 0\<rparr>"
    by (simp add: valid_image_def buffer_inv_def)
  show "write_tga_file \<lparr>w = 65536, h = 1, bpp = 1, data = replicate 65536 0\<rparr> True True =
     Inr (header_bytes
            \<lparr>idlength = 0, colormaptype = 0, datatypecode = 11, colormaporigin = 0,
             colormaplength = 0, colormapdepth = 0, x_origin = 0, y_origin = 0, width = 0,
             height = 1, bitsperpixel = 8, imagedescriptor = 0\<rparr> @
          unload_rle_data \<lparr>w = 65536, h = 1, bpp = 1, data = replicate 65536 0\<rparr> @
          developer_area_ref @ extension_area_ref @ footer)"
    by (simp add: write_tga_file_def int_ok_def u16_wraps)
  show "read_tga_file
     (header_bytes
        \<lparr>idlength = 0, colormaptype = 0, datatypecode = 11, colormaporigin = 0,
         colormaplength = 0, colormapdepth = 0, x_origin = 0, y_origin = 0, width = 0,
         height = 1, bitsperpixel = 8, imagedescriptor = 0\<rparr> @
      unload_rle_data \<lparr>w = 65536, h = 1, bpp = 1, data = replicate 65536 0\<rparr> @
      developer_area_ref @ extension_area_ref @ footer) = Inl InvalidDimensions"
    by (simp add: read_tga_file_bytes)
  show "valid_image \<lparr>w = 65535, h = 65535, bpp = 1, data = replicate 4294836225 0\<rparr>"
    by (simp add: valid_image_def buffer_inv_def)
  show "write_tga_file \<lparr>w = 65535, h = 65535, bpp = 1, data = replicate 4294836225 0\<rparr> True True =
     Inl SignedOverflow"
    by (simp add: write_tga_file_def int_ok_def)
qed

section \<open>The packet boundary at 128 pixels\<close>

text \<open>
  On a run of 128 equal pixels the scan switches to a repeated run at the first comparison and
  stops at \<^verbatim>\<open>max_chunk_length\<close>.
\<close>

lemma pixel_at_0: "pixel_at (p @ xs) (length p) 0 = p"
  by (simp add: pixel_at_def)

lemma pixel_at_Suc: "pixel_at (p @ xs) (length p) (Suc k) = pixel_at xs (length p) k"
  by (simp add: pixel_at_def)

lemma pixel_at_run:
  "k < m \<Longrightarrow> pixel_at (concat (replicate m p) @ r) (length p) k = p"
proof (induction m arbitrary: k)
  case 0
  then show ?case by simp
next
  case (Suc m)
  have unf: "concat (replicate (Suc m) p) @ r = p @ (concat (replicate m p) @ r)" by simp
  show ?case
  proof (cases k)
    case 0
    then show ?thesis unfolding unf by (simp only: pixel_at_0)
  next
    case (Suc k')
    with Suc.prems have "k' < m" by simp
    from Suc.IH [OF this] show ?thesis unfolding unf Suc by (simp only: pixel_at_Suc)
  qed
qed

lemma pixel_at_after_run:
  "length q = length p \<Longrightarrow> pixel_at (concat (replicate m p) @ q) (length p) m = q"
proof (induction m)
  case 0
  then show ?case by (simp add: pixel_at_def)
next
  case (Suc m)
  have unf: "concat (replicate (Suc m) p) @ q = p @ (concat (replicate m p) @ q)" by simp
  from Suc show ?case unfolding unf by (simp only: pixel_at_Suc)
qed

lemma length_run: "length (concat (replicate m p) @ q) = m * length p + length q"
  by (induction m) simp_all

lemma rle_scan_run:
  assumes "\<forall>k. rl - 1 \<le> k \<and> k < 127 \<longrightarrow> pixels_eq d B ((c + k) * B)"
    and "c + 128 \<le> n" "1 \<le> rl" "rl \<le> 128" "rl = 1 \<or> \<not> raw" "cb = (c + (rl - 1)) * B"
  shows "rle_scan d B n c cb rl raw = (128, False)"
  using assms
proof (induction d B n c cb rl raw rule: rle_scan.induct)
  case (1 d B npixels curpix curbyte run_length raw)
  note unfold = rle_scan.simps [of d B npixels curpix curbyte run_length raw]
  show ?case
  proof (cases "run_length < 128")
    case False
    with "1.prems"(4) have r: "run_length = 128" by simp
    with "1.prems"(5) have "\<not> raw" by simp
    with r show ?thesis by (subst unfold) simp
  next
    case True
    with "1.prems"(2) have cond: "curpix + run_length < npixels \<and> run_length < 128" by simp
    from True "1.prems"(3) have "run_length - 1 \<le> run_length - 1 \<and> run_length - 1 < 127"
      by simp
    with "1.prems"(1) have "pixels_eq d B ((curpix + (run_length - 1)) * B)" by blast
    with "1.prems"(6) have succ: "pixels_eq d B curbyte" by simp
    define raw1 where "raw1 = (if 1 = run_length then \<not> pixels_eq d B curbyte else raw)"
    have nr: "\<not> raw1"
    proof (cases "run_length = 1")
      case True
      with succ show ?thesis by (simp add: raw1_def)
    next
      case False
      with "1.prems"(5) show ?thesis by (simp add: raw1_def)
    qed
    have "rle_scan d B npixels curpix curbyte run_length raw =
        (if raw1 \<and> pixels_eq d B curbyte then (run_length - 1, raw1)
         else if \<not> raw1 \<and> \<not> pixels_eq d B curbyte then (run_length, raw1)
         else rle_scan d B npixels curpix (curbyte + B) (run_length + 1) raw1)"
      unfolding raw1_def using cond by (subst unfold) (auto simp add: Let_def)
    with succ nr have step: "rle_scan d B npixels curpix curbyte run_length raw =
        rle_scan d B npixels curpix (curbyte + B) (run_length + 1) raw1"
      by simp
    have "rle_scan d B npixels curpix (curbyte + B) (run_length + 1) raw1 = (128, False)"
    proof (rule "1.IH" [OF cond refl refl raw1_def])
      from succ nr show "\<not> (raw1 \<and> pixels_eq d B curbyte)" by simp
      from succ nr show "\<not> (\<not> raw1 \<and> \<not> pixels_eq d B curbyte)" by simp
      show "\<forall>k. run_length + 1 - 1 \<le> k \<and> k < 127 \<longrightarrow> pixels_eq d B ((curpix + k) * B)"
      proof (intro allI impI)
        fix k assume "run_length + 1 - 1 \<le> k \<and> k < 127"
        then have "run_length - 1 \<le> k \<and> k < 127" by arith
        with "1.prems"(1) show "pixels_eq d B ((curpix + k) * B)" by blast
      qed
      from "1.prems"(2) show "curpix + 128 \<le> npixels" .
      show "1 \<le> run_length + 1" by simp
      from True show "run_length + 1 \<le> 128" by simp
      from nr show "run_length + 1 = 1 \<or> \<not> raw1" by simp
      from "1.prems"(3,6) show "curbyte + B = (curpix + (run_length + 1 - 1)) * B"
        by (cases run_length) simp_all
    qed
    with step show ?thesis by simp
  qed
qed

lemma unload_rle_packets_run:
  assumes "length p = B" "length q = B"
  shows "unload_rle_packets (concat (replicate 128 p) @ q) B 129 0 = [(255, p), (0, q)]"
proof -
  define d where "d = concat (replicate 128 p) @ q"
  have len: "length d = 129 * B" unfolding d_def length_run using assms by simp
  have px: "pixel_at d B k = p" if "k < 128" for k
    using pixel_at_run [OF that, of p q] unfolding d_def assms(1) .
  have pq: "pixel_at d B 128 = q"
    using pixel_at_after_run [of q p 128] assms unfolding d_def by simp
  have eq: "pixels_eq d B ((0 + k) * B)" if "k < 127" for k
  proof -
    from that have "(k + 2) * B \<le> length d" unfolding len by (intro mult_le_mono1) simp
    from pixels_eq_pixel_at [OF this] that px [of k] px [of "Suc k"] show ?thesis by simp
  qed
  have s1: "rle_scan d B 129 0 0 1 True = (128, False)"
  proof (rule rle_scan_run)
    show "\<forall>k. 1 - 1 \<le> k \<and> k < 127 \<longrightarrow> pixels_eq d B ((0 + k) * B)" using eq by blast
    show "(0::nat) + 128 \<le> 129" by simp
    show "(1::nat) \<le> 1" "(1::nat) \<le> 128" "(1::nat) = 1 \<or> \<not> True" by simp_all
    show "0 = (0 + (1 - 1)) * B" by simp
  qed
  have s2: "rle_scan d B 129 128 (128 * B) 1 True = (1, True)"
    by (subst rle_scan.simps) simp
  have p3: "unload_rle_packets d B 129 129 = []"
    by (subst unload_rle_packets.simps) simp
  have hq: "take B (drop (128 * B) d) = q" using pq by (simp add: pixel_at_def)
  have hp: "take B d = p" using px [of 0] by (simp add: pixel_at_def)
  have p2: "unload_rle_packets d B 129 128 = [(0, q)]"
    using s2 p3 hq by (subst unload_rle_packets.simps) simp
  have p1: "unload_rle_packets d B 129 0 = [(255, p), (0, q)]"
    using s1 p2 hp by (subst unload_rle_packets.simps) simp
  then show ?thesis unfolding d_def .
qed

text \<open>
  Claim C4. An image of 129 pixels whose buffer is 128 times the pixel \<open>p\<close> followed by one
  pixel \<open>q\<close> (each of \<^verbatim>\<open>bpp\<close> bytes) is encoded as exactly the header byte 255, the bytes of
  \<open>p\<close>, the header byte 0 and the bytes of \<open>q\<close>; and the decoder, run on exactly these bytes
  with \<^verbatim>\<open>w*h = 129\<close> and any buffer of the right length, succeeds having counted 129 pixels,
  consumed every byte and filled the buffer with the original 129 pixels.
\<close>

theorem rle_packet_boundary:
  assumes "data img = concat (replicate 128 p) @ q"
    and "length p = unat (bpp img)" and "length q = unat (bpp img)"
    and "0 < w img" and "w img * h img = 129"
  shows "unload_rle_data img = 255 # p @ 0 # q \<and>
         (\<forall>b0. length b0 = length (data img) \<longrightarrow>
            (\<exists>s. load_rle_data (img\<lparr>data := b0\<rparr>) (255 # p @ 0 # q) = Inr s \<and>
                 buf s = concat (replicate 128 p) @ q \<and> currentpixel s = 129 \<and>
                 input s = [] \<and> oob s = []))"
proof (intro conjI allI impI)
  from assms(5) have n: "nat (w img * h img) = 129" by simp
  from unload_rle_packets_run [OF assms(2,3)]
  show enc: "unload_rle_data img = 255 # p @ 0 # q"
    by (simp add: unload_rle_data_def n assms(1))
  fix b0 :: "u8 list" assume b0: "length b0 = length (data img)"
  from assms(5) have "0 < w img * h img" by simp
  with assms(4) have hpos: "0 < h img" by (simp add: zero_less_mult_iff)
  have "length (data img) = 128 * length p + length q"
    unfolding assms(1) by (rule length_run)
  with assms(2,3) have "int (length (data img)) = 129 * uint (bpp img)" by simp
  with assms(5) have inv: "buffer_inv img" by (simp add: buffer_inv_def)
  from load_rle_data_unload [OF inv assms(4) hpos b0, of "[]"]
  show "\<exists>s. load_rle_data (img\<lparr>data := b0\<rparr>) (255 # p @ 0 # q) = Inr s \<and>
           buf s = concat (replicate 128 p) @ q \<and> currentpixel s = 129 \<and>
           input s = [] \<and> oob s = []"
    by (auto simp add: enc assms(1) n)
qed

theorem rle_packet_boundary_witness:
  "unload_rle_data \<lparr>w = 129, h = 1, bpp = 3, data = concat (replicate 128 [1, 2, 3]) @ [4, 5, 6]\<rparr>
     = [255, 1, 2, 3, 0, 4, 5, 6] \<and>
   (\<exists>s. load_rle_data \<lparr>w = 129, h = 1, bpp = 3, data = replicate 387 0\<rparr> [255, 1, 2, 3, 0, 4, 5, 6] = Inr s \<and>
        buf s = concat (replicate 128 [1, 2, 3]) @ [4, 5, 6] \<and> currentpixel s = 129 \<and>
        input s = [] \<and> oob s = [])"
proof -
  define img where "img = \<lparr>w = 129, h = 1, bpp = 3, data = concat (replicate 128 [1, 2, 3]) @ [4, 5, 6]\<rparr>"
  have a: "data img = concat (replicate 128 [1, 2, 3]) @ [4, 5, 6]"
    "length [1, 2, 3 :: u8] = unat (bpp img)" "length [4, 5, 6 :: u8] = unat (bpp img)"
    "0 < w img" "w img * h img = 129"
    by (simp_all add: img_def)
  have l: "length (replicate 387 (0 :: u8)) = length (data img)"
    unfolding a(1) length_run by simp
  from rle_packet_boundary [OF a] l
  have "unload_rle_data img = [255, 1, 2, 3, 0, 4, 5, 6]"
    and "\<exists>s. load_rle_data (img\<lparr>data := replicate 387 0\<rparr>) [255, 1, 2, 3, 0, 4, 5, 6] = Inr s \<and>
        buf s = concat (replicate 128 [1, 2, 3]) @ [4, 5, 6] \<and> currentpixel s = 129 \<and>
        input s = [] \<and> oob s = []"
    by simp_all
  then show ?thesis by (simp add: img_def)
qed

section \<open>Truncated and corrupt RLE streams\<close>

text \<open>
  The decoder fails in two ways only. Where it succeeds or reports an overrun it has not asked
  for a byte the stream did not have, so it does the same when further bytes follow; a stream cut
  short of what a successful decoding consumed can therefore only end in the truncation error.
\<close>

lemma more_input_simps [simp]:
  "more_input x (Inl (e, s)) = Inl (e, s\<lparr>input := input s @ x\<rparr>)"
  "more_input x (Inr s) = Inr (s\<lparr>input := input s @ x\<rparr>)"
  by (simp_all add: more_input_def)

lemma store_byte_input_update:
  "store_byte v (s\<lparr>input := i\<rparr>) = (store_byte v s)\<lparr>input := i\<rparr>"
  by (simp add: store_byte_def)

lemma store_pixel_input_update:
  "store_pixel px (s\<lparr>input := i\<rparr>) = (store_pixel px s)\<lparr>input := i\<rparr>"
  unfolding store_pixel_def
  by (induction px arbitrary: s) (simp_all add: store_byte_input_update)

lemma raw_chunk_error:
  "raw_chunk B pc n s = Inl (e, s') \<Longrightarrow>
   e = TruncatedPixelData \<or> (e = OverrunPixelData \<and> pc < currentpixel s')"
proof (induction n arbitrary: s)
  case 0
  then show ?case by simp
next
  case (Suc n)
  define s2 where "s2 = (store_pixel (take B (input s)) (s\<lparr>input := drop B (input s)\<rparr>))
      \<lparr>currentpixel := currentpixel (store_pixel (take B (input s)) (s\<lparr>input := drop B (input s)\<rparr>)) + 1\<rparr>"
  have unf: "raw_chunk B pc (Suc n) s =
      (if length (input s) < B then Inl (TruncatedPixelData, s)
       else if currentpixel s2 > pc then Inl (OverrunPixelData, s2)
       else raw_chunk B pc n s2)"
    by (simp add: Let_def s2_def)
  show ?case
  proof (cases "length (input s) < B")
    case True
    with Suc.prems unf show ?thesis by simp
  next
    case False
    show ?thesis
    proof (cases "currentpixel s2 > pc")
      case True
      with False Suc.prems unf show ?thesis by auto
    next
      case nov: False
      with False Suc.prems unf have "raw_chunk B pc n s2 = Inl (e, s')" by simp
      then show ?thesis by (rule Suc.IH)
    qed
  qed
qed

lemma rep_chunk_error:
  "rep_chunk px pc n s = Inl (e, s') \<Longrightarrow> e = OverrunPixelData \<and> pc < currentpixel s'"
proof (induction n arbitrary: s)
  case 0
  then show ?case by simp
next
  case (Suc n)
  define s2 where "s2 = (store_pixel px s)\<lparr>currentpixel := currentpixel (store_pixel px s) + 1\<rparr>"
  have unf: "rep_chunk px pc (Suc n) s =
      (if currentpixel s2 > pc then Inl (OverrunPixelData, s2) else rep_chunk px pc n s2)"
    by (simp add: Let_def s2_def)
  show ?case
  proof (cases "currentpixel s2 > pc")
    case True
    with Suc.prems unf show ?thesis by auto
  next
    case False
    with Suc.prems unf have "rep_chunk px pc n s2 = Inl (e, s')" by simp
    then show ?thesis by (rule Suc.IH)
  qed
qed

lemma rle_chunk_error:
  "rle_chunk B pc hdr s = Inl (e, s') \<Longrightarrow>
   e = TruncatedPixelData \<or> (e = OverrunPixelData \<and> pc < currentpixel s')"
  by (auto simp: rle_chunk_def split: if_splits dest: raw_chunk_error rep_chunk_error)

lemma load_rle_loop_error:
  "load_rle_loop B pc s = Inl (e, s') \<Longrightarrow>
   e = TruncatedPixelData \<or> (e = OverrunPixelData \<and> pc < currentpixel s')"
proof (induction B pc s rule: load_rle_loop.induct)
  case (1 B pixelcount s)
  note unfold = load_rle_loop.simps [of B pixelcount s]
  show ?case
  proof (cases "input s")
    case Nil
    with "1.prems" show ?thesis by (simp add: unfold)
  next
    case (Cons chunkheader rest)
    show ?thesis
    proof (cases "rle_chunk B pixelcount chunkheader (s\<lparr>input := rest\<rparr>)")
      case (Inl a)
      with Cons "1.prems" have "rle_chunk B pixelcount chunkheader (s\<lparr>input := rest\<rparr>) = Inl (e, s')"
        by (simp add: unfold)
      then show ?thesis by (rule rle_chunk_error)
    next
      case (Inr s1)
      show ?thesis
      proof (cases "currentpixel s1 < pixelcount")
        case True
        with Cons Inr "1.prems" have "load_rle_loop B pixelcount s1 = Inl (e, s')"
          by (simp add: unfold)
        from "1.IH" [OF Cons Inr True this] show ?thesis .
      next
        case False
        with Cons Inr "1.prems" show ?thesis by (simp add: unfold)
      qed
    qed
  qed
qed

lemma raw_chunk_Inr:
  "raw_chunk B pc n s = Inr s' \<Longrightarrow>
   n * B \<le> length (input s) \<and> (0 < n \<longrightarrow> currentpixel s + n \<le> pc)"
proof (induction n arbitrary: s)
  case 0
  then show ?case by simp
next
  case (Suc n)
  define s2 where "s2 = (store_pixel (take B (input s)) (s\<lparr>input := drop B (input s)\<rparr>))
      \<lparr>currentpixel := currentpixel (store_pixel (take B (input s)) (s\<lparr>input := drop B (input s)\<rparr>)) + 1\<rparr>"
  have unf: "raw_chunk B pc (Suc n) s =
      (if length (input s) < B then Inl (TruncatedPixelData, s)
       else if currentpixel s2 > pc then Inl (OverrunPixelData, s2)
       else raw_chunk B pc n s2)"
    by (simp add: Let_def s2_def)
  have f: "input s2 = drop B (input s)" "currentpixel s2 = currentpixel s + 1"
    by (simp_all add: s2_def store_pixel_input)
  from Suc.prems unf have lB: "B \<le> length (input s)" and nov: "\<not> currentpixel s2 > pc"
    and r: "raw_chunk B pc n s2 = Inr s'"
    by (simp_all split: if_splits)
  from Suc.IH [OF r] f lB have "Suc n * B \<le> length (input s)" by simp linarith
  moreover from Suc.IH [OF r] f nov have "currentpixel s + Suc n \<le> pc" by (cases n) simp_all
  ultimately show ?case by simp
qed

lemma rep_chunk_Inr:
  "rep_chunk px pc n s = Inr s' \<Longrightarrow> 0 < n \<longrightarrow> currentpixel s + n \<le> pc"
proof (induction n arbitrary: s)
  case 0
  then show ?case by simp
next
  case (Suc n)
  define s2 where "s2 = (store_pixel px s)\<lparr>currentpixel := currentpixel (store_pixel px s) + 1\<rparr>"
  have unf: "rep_chunk px pc (Suc n) s =
      (if currentpixel s2 > pc then Inl (OverrunPixelData, s2) else rep_chunk px pc n s2)"
    by (simp add: Let_def s2_def)
  have f: "currentpixel s2 = currentpixel s + 1" by (simp add: s2_def)
  from Suc.prems unf have nov: "\<not> currentpixel s2 > pc" and r: "rep_chunk px pc n s2 = Inr s'"
    by (simp_all split: if_splits)
  from Suc.IH [OF r] f nov show ?case by (cases n) simp_all
qed

text \<open>
  A packet decoded without error from a state with \<open>currentbyte = currentpixel * B\<close> and a
  buffer of at least \<open>pc * B\<close> bytes: every store was inside the buffer.
\<close>

lemma rle_chunk_Inr:
  assumes "rle_chunk B pc hdr s = Inr s'"
    and "currentbyte s = currentpixel s * B" "pc * B \<le> length (buf s)"
  shows "currentpixel s < currentpixel s' \<and> currentpixel s' \<le> pc \<and>
         currentbyte s' = currentpixel s' * B \<and> oob s' = oob s"
proof (cases "hdr < 128")
  case True
  define n where "n = unat (hdr + 1)"
  from True have "unat hdr < 128" by (simp add: word_less_nat_alt)
  then have n1: "0 < n" by (simp add: n_def unat_word_ariths)
  from assms(1) True have r: "raw_chunk B pc n s = Inr s'" by (simp add: rle_chunk_def n_def)
  from raw_chunk_Inr [OF r] n1 have p: "n * B \<le> length (input s)" "currentpixel s + n \<le> pc"
    by simp_all
  from p(2) have "(currentpixel s + n) * B \<le> pc * B" by (rule mult_le_mono1)
  with assms(2,3) have fit: "currentbyte s + n * B \<le> length (buf s)"
    by (simp add: add_mult_distrib)
  from raw_chunk_ok [OF p fit] r have "currentpixel s' = currentpixel s + n"
    "currentbyte s' = currentbyte s + n * B" "oob s' = oob s"
    by auto
  with n1 p(2) assms(2) show ?thesis by (simp add: add_mult_distrib)
next
  case False
  define n where "n = unat (hdr - 127)"
  define px where "px = take B (input s)"
  define s0 where "s0 = s\<lparr>input := drop B (input s)\<rparr>"
  from False have "128 \<le> unat hdr" by (simp add: word_less_nat_alt)
  then have n1: "0 < n" by (simp add: n_def unat_sub word_le_nat_alt)
  from assms(1) False have lB: "B \<le> length (input s)" and r: "rep_chunk px pc n s0 = Inr s'"
    by (simp_all add: rle_chunk_def n_def px_def s0_def split: if_splits)
  from lB have lpx: "length px = B" by (simp add: px_def)
  from rep_chunk_Inr [OF r] n1 have p: "currentpixel s0 + n \<le> pc" by simp
  then have "(currentpixel s0 + n) * B \<le> pc * B" by (rule mult_le_mono1)
  with assms(2,3) lpx have fit: "currentbyte s0 + n * length px \<le> length (buf s0)"
    by (simp add: add_mult_distrib s0_def)
  from rep_chunk_ok [OF p fit] r lpx have "currentpixel s' = currentpixel s0 + n"
    "currentbyte s' = currentbyte s0 + n * B" "oob s' = oob s0"
    by auto
  with n1 p assms(2) show ?thesis by (simp add: add_mult_distrib s0_def)
qed

lemma load_rle_loop_Inr:
  assumes "load_rle_loop B pc s = Inr s'"
    and "currentbyte s = currentpixel s * B" "pc * B \<le> length (buf s)"
  shows "currentpixel s' = pc \<and> currentbyte s' = pc * B \<and> oob s' = oob s"
  using assms
proof (induction B pc s rule: load_rle_loop.induct)
  case (1 B pixelcount s)
  note unfold = load_rle_loop.simps [of B pixelcount s]
  from "1.prems"(1) obtain chunkheader rest where inp: "input s = chunkheader # rest"
    by (cases "input s") (simp_all add: unfold)
  from "1.prems"(1) inp obtain s1 where
    ch: "rle_chunk B pixelcount chunkheader (s\<lparr>input := rest\<rparr>) = Inr s1"
    by (cases "rle_chunk B pixelcount chunkheader (s\<lparr>input := rest\<rparr>)") (simp_all add: unfold)
  from rle_chunk_Inr [OF ch] "1.prems"(2,3)
  have s1: "currentpixel s1 \<le> pixelcount" "currentbyte s1 = currentpixel s1 * B" "oob s1 = oob s"
    by simp_all
  from rle_chunk_length [OF ch] "1.prems"(3) have l1: "pixelcount * B \<le> length (buf s1)" by simp
  show ?case
  proof (cases "currentpixel s1 < pixelcount")
    case True
    with "1.prems"(1) inp ch have "load_rle_loop B pixelcount s1 = Inr s'" by (simp add: unfold)
    from "1.IH" [OF inp ch True this s1(2) l1] s1(3) show ?thesis by simp
  next
    case False
    with "1.prems"(1) inp ch have "s' = s1" by (simp add: unfold)
    with False s1 show ?thesis by simp
  qed
qed

lemma currentpixel_input_update:
  "s\<lparr>currentpixel := c, input := i\<rparr> = s\<lparr>input := i, currentpixel := c\<rparr>"
  by (cases s) simp

lemma raw_chunk_more_input:
  assumes "\<forall>s'. raw_chunk B pc n s \<noteq> Inl (TruncatedPixelData, s')"
  shows "raw_chunk B pc n (s\<lparr>input := input s @ x\<rparr>) = more_input x (raw_chunk B pc n s)"
  using assms
proof (induction n arbitrary: s)
  case 0
  then show ?case by simp
next
  case (Suc n)
  define s2 where "s2 = (store_pixel (take B (input s)) (s\<lparr>input := drop B (input s)\<rparr>))
      \<lparr>currentpixel := currentpixel (store_pixel (take B (input s)) (s\<lparr>input := drop B (input s)\<rparr>)) + 1\<rparr>"
  have unf: "raw_chunk B pc (Suc n) s =
      (if length (input s) < B then Inl (TruncatedPixelData, s)
       else if currentpixel s2 > pc then Inl (OverrunPixelData, s2)
       else raw_chunk B pc n s2)"
    by (simp add: Let_def s2_def)
  from Suc.prems unf have lB: "\<not> length (input s) < B" by auto
  show ?case
  proof (cases "currentpixel s2 > pc")
    case True
    with lB show ?thesis
      by (simp add: Let_def s2_def store_pixel_input_update store_pixel_input
            currentpixel_input_update)
  next
    case False
    with lB unf Suc.prems have "\<forall>s'. raw_chunk B pc n s2 \<noteq> Inl (TruncatedPixelData, s')" by simp
    from Suc.IH [OF this] False lB show ?thesis
      by (simp add: Let_def s2_def store_pixel_input_update store_pixel_input
            currentpixel_input_update)
  qed
qed

lemma rep_chunk_more_input:
  "rep_chunk px pc n (s\<lparr>input := input s @ x\<rparr>) = more_input x (rep_chunk px pc n s)"
proof (induction n arbitrary: s)
  case 0
  then show ?case by simp
next
  case (Suc n)
  define s2 where "s2 = (store_pixel px s)\<lparr>currentpixel := currentpixel (store_pixel px s) + 1\<rparr>"
  show ?case
  proof (cases "currentpixel s2 > pc")
    case True
    then show ?thesis
      by (simp add: Let_def s2_def store_pixel_input_update store_pixel_input
            currentpixel_input_update)
  next
    case False
    with Suc.IH [of s2] show ?thesis
      by (simp add: Let_def s2_def store_pixel_input_update store_pixel_input
            currentpixel_input_update)
  qed
qed

lemma rle_chunk_more_input:
  assumes "\<forall>s'. rle_chunk B pc hdr s \<noteq> Inl (TruncatedPixelData, s')"
  shows "rle_chunk B pc hdr (s\<lparr>input := input s @ x\<rparr>) = more_input x (rle_chunk B pc hdr s)"
proof (cases "hdr < 128")
  case True
  with assms raw_chunk_more_input [of B pc "unat (hdr + 1)" s x] show ?thesis
    by (simp add: rle_chunk_def)
next
  case False
  with assms have lB: "\<not> length (input s) < B" by (auto simp: rle_chunk_def)
  define s0 where "s0 = s\<lparr>input := drop B (input s)\<rparr>"
  from False lB rep_chunk_more_input [of "take B (input s)" pc "unat (hdr - 127)" s0 x]
  show ?thesis by (simp add: rle_chunk_def s0_def)
qed


lemma load_rle_loop_more_input:
  assumes "\<forall>s'. load_rle_loop B pc s \<noteq> Inl (TruncatedPixelData, s')"
  shows "load_rle_loop B pc (s\<lparr>input := input s @ x\<rparr>) = more_input x (load_rle_loop B pc s)"
  using assms
proof (induction B pc s rule: load_rle_loop.induct)
  case (1 B pixelcount s)
  define sx where "sx = s\<lparr>input := input s @ x\<rparr>"
  note unfold = load_rle_loop.simps [of B pixelcount s]
  note unfoldx = load_rle_loop.simps [of B pixelcount sx]
  from "1.prems" obtain chunkheader rest where inp: "input s = chunkheader # rest"
    by (cases "input s") (simp_all add: unfold)
  then have inpx: "input sx = chunkheader # (rest @ x)" by (simp add: sx_def)
  define s0 where "s0 = s\<lparr>input := rest\<rparr>"
  have s0x: "sx\<lparr>input := rest @ x\<rparr> = s0\<lparr>input := input s0 @ x\<rparr>" by (simp add: s0_def sx_def)
  have u: "load_rle_loop B pixelcount s =
      (case rle_chunk B pixelcount chunkheader s0 of
         Inl e \<Rightarrow> Inl e
       | Inr s' \<Rightarrow> if currentpixel s' < pixelcount then load_rle_loop B pixelcount s' else Inr s')"
    by (subst unfold) (simp add: inp s0_def)
  have ux: "load_rle_loop B pixelcount sx =
      (case rle_chunk B pixelcount chunkheader (s0\<lparr>input := input s0 @ x\<rparr>) of
         Inl e \<Rightarrow> Inl e
       | Inr s' \<Rightarrow> if currentpixel s' < pixelcount then load_rle_loop B pixelcount s' else Inr s')"
    by (subst unfoldx) (simp only: inpx list.case s0x)
  from "1.prems" u have nt: "\<forall>s'. rle_chunk B pixelcount chunkheader s0 \<noteq> Inl (TruncatedPixelData, s')"
    by (auto split: sum.splits)
  note cx = rle_chunk_more_input [OF nt, of x]
  have "load_rle_loop B pixelcount sx = more_input x (load_rle_loop B pixelcount s)"
  proof (cases "rle_chunk B pixelcount chunkheader s0")
    case (Inl a)
    obtain e s1 where a: "a = (e, s1)" by (cases a)
    with Inl cx u ux show ?thesis by simp
  next
    case (Inr s1)
    show ?thesis
    proof (cases "currentpixel s1 < pixelcount")
      case True
      with Inr u "1.prems" have "\<forall>s'. load_rle_loop B pixelcount s1 \<noteq> Inl (TruncatedPixelData, s')"
        by simp
      from "1.IH" [OF inp Inr [unfolded s0_def] True this] Inr cx u ux True show ?thesis by simp
    next
      case False
      with Inr cx u ux show ?thesis by simp
    qed
  qed
  then show ?case by (simp only: sx_def)
qed

lemma raw_chunk_count:
  "raw_chunk B pc n s = Inr s' \<Longrightarrow> currentpixel s' = currentpixel s + n"
proof (induction n arbitrary: s)
  case 0
  then show ?case by simp
next
  case (Suc n)
  define s2 where "s2 = (store_pixel (take B (input s)) (s\<lparr>input := drop B (input s)\<rparr>))
      \<lparr>currentpixel := currentpixel (store_pixel (take B (input s)) (s\<lparr>input := drop B (input s)\<rparr>)) + 1\<rparr>"
  from Suc.prems have "raw_chunk B pc n s2 = Inr s'"
    by (simp add: Let_def s2_def split: if_splits)
  from Suc.IH [OF this] show ?case by (simp add: s2_def)
qed

lemma rep_chunk_count:
  "rep_chunk px pc n s = Inr s' \<Longrightarrow> currentpixel s' = currentpixel s + n"
proof (induction n arbitrary: s)
  case 0
  then show ?case by simp
next
  case (Suc n)
  define s2 where "s2 = (store_pixel px s)\<lparr>currentpixel := currentpixel (store_pixel px s) + 1\<rparr>"
  from Suc.prems have "rep_chunk px pc n s2 = Inr s'"
    by (simp add: Let_def s2_def split: if_splits)
  from Suc.IH [OF this] show ?case by (simp add: s2_def)
qed

lemma rle_chunk_count:
  assumes "rle_chunk B pc hdr s = Inr s'"
  shows "currentpixel s' \<le> pc"
proof (cases "hdr < 128")
  case True
  then have "unat hdr < 128" by (simp add: word_less_nat_alt)
  then have n1: "0 < unat (hdr + 1)" by (simp add: unat_word_ariths)
  from assms True have r: "raw_chunk B pc (unat (hdr + 1)) s = Inr s'" by (simp add: rle_chunk_def)
  from raw_chunk_Inr [OF r] raw_chunk_count [OF r] n1 show ?thesis by simp
next
  case False
  then have "128 \<le> unat hdr" by (simp add: word_less_nat_alt)
  then have n1: "0 < unat (hdr - 127)" by (simp add: unat_sub word_le_nat_alt)
  from assms False have r: "rep_chunk (take B (input s)) pc (unat (hdr - 127))
      (s\<lparr>input := drop B (input s)\<rparr>) = Inr s'"
    by (simp add: rle_chunk_def split: if_splits)
  from rep_chunk_Inr [OF r] rep_chunk_count [OF r] n1 show ?thesis by simp
qed

lemma load_rle_loop_count:
  "load_rle_loop B pc s = Inr s' \<Longrightarrow> currentpixel s' = pc"
proof (induction B pc s rule: load_rle_loop.induct)
  case (1 B pixelcount s)
  note unfold = load_rle_loop.simps [of B pixelcount s]
  from "1.prems" obtain chunkheader rest where inp: "input s = chunkheader # rest"
    by (cases "input s") (simp_all add: unfold)
  from "1.prems" inp obtain s1 where
    ch: "rle_chunk B pixelcount chunkheader (s\<lparr>input := rest\<rparr>) = Inr s1"
    by (cases "rle_chunk B pixelcount chunkheader (s\<lparr>input := rest\<rparr>)") (simp_all add: unfold)
  show ?case
  proof (cases "currentpixel s1 < pixelcount")
    case True
    with "1.prems" inp ch have "load_rle_loop B pixelcount s1 = Inr s'" by (simp add: unfold)
    from "1.IH" [OF inp ch True this] show ?thesis .
  next
    case False
    with "1.prems" inp ch have "s' = s1" by (simp add: unfold)
    with False rle_chunk_count [OF ch] show ?thesis by simp
  qed
qed

lemma load_rle_loop_prefix:
  assumes ok: "load_rle_loop B pc s = Inr s'" and c: "input s = c @ input s'"
    and k: "k < length c"
  shows "\<exists>s''. load_rle_loop B pc (s\<lparr>input := take k c\<rparr>) = Inl (TruncatedPixelData, s'')"
proof (rule ccontr)
  define st where "st = s\<lparr>input := take k c\<rparr>"
  define x where "x = drop k c @ input s'"
  assume "\<not> (\<exists>s''. load_rle_loop B pc (s\<lparr>input := take k c\<rparr>) = Inl (TruncatedPixelData, s''))"
  then have nt: "\<forall>s''. load_rle_loop B pc st \<noteq> Inl (TruncatedPixelData, s'')"
    by (simp add: st_def)
  have "st\<lparr>input := input st @ x\<rparr> = s" by (simp add: st_def x_def c)
  with load_rle_loop_more_input [OF nt, of x] ok
  have m: "more_input x (load_rle_loop B pc st) = Inr s'" by simp
  then obtain u where "load_rle_loop B pc st = Inr u" and su: "s' = u\<lparr>input := input u @ x\<rparr>"
    by (cases "load_rle_loop B pc st") (auto simp: more_input_def)
  from su have "input s' = input (u\<lparr>input := input u @ x\<rparr>)" by (rule arg_cong)
  then have "input s' = input u @ x" by simp
  then have "length (input s') = length (input u @ x)" by (rule arg_cong)
  then have "length (input s') = length (input u) + length (drop k c) + length (input s')"
    by (simp add: x_def)
  with k show False by simp
qed

text \<open>
  Claim C5. For every image state and every stream: a decoding that succeeds has counted exactly
  \<^verbatim>\<open>w*h\<close> pixels (and, on a buffer of \<^verbatim>\<open>w*h*bpp\<close> bytes, has stored exactly that many
  bytes, all of them inside the buffer); a decoding that fails either fails with the truncation
  error or has counted more than \<^verbatim>\<open>w*h\<close> pixels, so a failure before the count exceeds
  \<^verbatim>\<open>w*h\<close> is a truncation; and if a stream is decoded with success, every proper prefix of
  the bytes the decoder consumed (the stream cut inside a packet, inside a pixel or before a
  packet header) is rejected with the truncation error. \<^verbatim>\<open>read_tga_file\<close> passes the error
  of the decoder on for the RLE data types 10 and 11.
\<close>

theorem load_rle_data_truncated:
  "(load_rle_data img ins = Inr s \<longrightarrow> currentpixel s = nat (w img * h img)) \<and>
   (load_rle_data img ins = Inr s \<and> buffer_inv img \<and> 0 \<le> w img * h img \<longrightarrow>
      currentbyte s = length (data img) \<and> length (buf s) = length (data img) \<and> oob s = []) \<and>
   (load_rle_data img ins = Inl (e, s) \<longrightarrow>
      e = TruncatedPixelData \<or> (e = OverrunPixelData \<and> nat (w img * h img) < currentpixel s)) \<and>
   (load_rle_data img (c @ rest) = Inr s \<and> input s = rest \<and> k < length c \<longrightarrow>
      (\<exists>s'. load_rle_data img (take k c) = Inl (TruncatedPixelData, s'))) \<and>
   ((10 = datatypecode header \<or> 11 = datatypecode header) \<and> load_rle_data img ins = Inl (e, s) \<longrightarrow>
      read_pixel_data header img ins = Inl e)"
proof (intro conjI impI)
  assume "load_rle_data img ins = Inr s"
  then show "currentpixel s = nat (w img * h img)"
    unfolding load_rle_data_def by (rule load_rle_loop_count)
next
  assume a: "load_rle_data img ins = Inr s \<and> buffer_inv img \<and> 0 \<le> w img * h img"
  define s0 where "s0 = \<lparr>input = ins, buf = data img, currentpixel = 0, currentbyte = 0, oob = []\<rparr>"
  from a have "int (length (data img)) = int (nat (w img * h img) * unat (bpp img))"
    by (simp add: buffer_inv_def)
  then have len: "nat (w img * h img) * unat (bpp img) = length (data img)"
    by (simp only: of_nat_eq_iff)
  from a have r: "load_rle_loop (unat (bpp img)) (nat (w img * h img)) s0 = Inr s"
    by (simp add: load_rle_data_def s0_def)
  have i: "currentbyte s0 = currentpixel s0 * unat (bpp img)"
    "nat (w img * h img) * unat (bpp img) \<le> length (buf s0)"
    using len by (simp_all add: s0_def)
  from load_rle_loop_Inr [OF r i] load_rle_loop_length [OF r] len
  show "currentbyte s = length (data img)" "length (buf s) = length (data img)" "oob s = []"
    by (simp_all add: s0_def)
next
  assume "load_rle_data img ins = Inl (e, s)"
  then show "e = TruncatedPixelData \<or> (e = OverrunPixelData \<and> nat (w img * h img) < currentpixel s)"
    unfolding load_rle_data_def by (rule load_rle_loop_error)
next
  assume a: "load_rle_data img (c @ rest) = Inr s \<and> input s = rest \<and> k < length c"
  define s0 where "s0 = \<lparr>input = c @ rest, buf = data img, currentpixel = 0, currentbyte = 0, oob = []\<rparr>"
  from a have r: "load_rle_loop (unat (bpp img)) (nat (w img * h img)) s0 = Inr s"
    by (simp add: load_rle_data_def s0_def)
  from a have "input s0 = c @ input s" and "k < length c" by (simp_all add: s0_def)
  from load_rle_loop_prefix [OF r this]
  show "\<exists>s'. load_rle_data img (take k c) = Inl (TruncatedPixelData, s')"
    by (simp add: load_rle_data_def s0_def)
next
  assume "(10 = datatypecode header \<or> 11 = datatypecode header) \<and> load_rle_data img ins = Inl (e, s)"
  then show "read_pixel_data header img ins = Inl e"
    by (auto simp add: read_pixel_data_def)
qed

theorem load_rle_data_truncated_witness:
  "load_rle_data \<lparr>w = 3, h = 3, bpp = 1, data = replicate 9 0\<rparr>
     ([130, 1, 1, 2, 3, 129, 4, 129, 5] @ [9, 9])
     = Inr \<lparr>input = [9, 9], buf = [1, 1, 1, 2, 3, 4, 4, 5, 5], currentpixel = 9, currentbyte = 9,
            oob = []\<rparr> \<and>
   (4 :: nat) < length [130, 1, 1, 2, 3, 129, 4, 129, 5 :: u8] \<and>
   (\<exists>s'. load_rle_data \<lparr>w = 3, h = 3, bpp = 1, data = replicate 9 0\<rparr> [130, 1, 1, 2]
           = Inl (TruncatedPixelData, s')) \<and>
   load_rle_data \<lparr>w = 3, h = 3, bpp = 1, data = replicate 9 0\<rparr> [130, 1, 1, 2]
     = Inl (TruncatedPixelData,
            \<lparr>input = [], buf = [1, 1, 1, 2, 0, 0, 0, 0, 0], currentpixel = 4, currentbyte = 4,
             oob = []\<rparr>)"
proof -
  have ok: "load_rle_data \<lparr>w = 3, h = 3, bpp = 1, data = replicate 9 0\<rparr>
     ([130, 1, 1, 2, 3, 129, 4, 129, 5] @ [9, 9])
     = Inr \<lparr>input = [9, 9], buf = [1, 1, 1, 2, 3, 4, 4, 5, 5], currentpixel = 9, currentbyte = 9,
            oob = []\<rparr>"
    by code_simp
  have tr: "load_rle_data \<lparr>w = 3, h = 3, bpp = 1, data = replicate 9 0\<rparr> [130, 1, 1, 2]
     = Inl (TruncatedPixelData,
            \<lparr>input = [], buf = [1, 1, 1, 2, 0, 0, 0, 0, 0], currentpixel = 4, currentbyte = 4,
             oob = []\<rparr>)"
    by code_simp
  have k: "(4 :: nat) < length [130, 1, 1, 2, 3, 129, 4, 129, 5 :: u8]" by simp
  from load_rle_data_truncated [of "\<lparr>w = 3, h = 3, bpp = 1, data = replicate 9 0\<rparr>" _
      "\<lparr>input = [9, 9], buf = [1, 1, 1, 2, 3, 4, 4, 5, 5], currentpixel = 9, currentbyte = 9,
        oob = []\<rparr>" _ "[130, 1, 1, 2, 3, 129, 4, 129, 5]" "[9, 9]" 4] ok k
  have "\<exists>s'. load_rle_data \<lparr>w = 3, h = 3, bpp = 1, data = replicate 9 0\<rparr>
      (take 4 [130, 1, 1, 2, 3, 129, 4, 129, 5]) = Inl (TruncatedPixelData, s')"
    by simp
  then have "\<exists>s'. load_rle_data \<lparr>w = 3, h = 3, bpp = 1, data = replicate 9 0\<rparr> [130, 1, 1, 2]
           = Inl (TruncatedPixelData, s')"
    by simp
  with ok k tr show ?thesis by blast
qed

end
